theory Spec2Isabelle
  imports Complex_Main
begin

section \<open>Keyframe extraction of NarratoAI: \<open>app/utils/video_processor_v2.py\<close>\<close>

text \<open>
  The class \<open>VideoProcessor\<close> is embedded function by function. The conventions:
  \<^item> A decoded frame is a value of an arbitrary type \<open>'f\<close>. OpenCV's
    \<open>cv2.cvtColor(frame, cv2.COLOR_BGR2GRAY)\<close> is a parameter
    \<open>gray :: 'f \<Rightarrow> int list\<close> giving the grayscale intensities of a frame in row-major
    order (what \<open>.flatten()\<close> returns). The frames of one video share one height and
    width; two grayscale arrays of different length stand for arrays that numpy cannot
    broadcast against each other.
  \<^item> Python integers are \<open>int\<close>, positions in a list are \<open>nat\<close>.
  \<^item> A floating-point value is the rational number it denotes. Where the source adds
    integers and divides once (\<open>np.mean\<close> of an integer array, the time stamps), the value
    is computed exactly: float64 represents the sums exactly below \<open>2 ^ 53\<close>, and the
    quotients are compared with integers or truncated. The floating-point work that
    \<open>extract_keyframes\<close> leaves to scikit-learn and numpy is a parameter
    \<open>fl :: numerics\<close> of the model.
  \<^item> An exception is a value of type \<open>error\<close>; a function that can raise returns
    \<open>error + 'a\<close>, and one that also has effects returns the state it leaves behind.
\<close>

subsection \<open>Exceptions\<close>

datatype error =
    BroadcastError        \<comment> \<open>numpy: operands could not be broadcast together (ValueError)\<close>
  | KMeansInputError      \<comment> \<open>sklearn: ValueError of \<open>KMeans.fit\<close> on an empty or ragged array\<close>
  | EmptySequenceError    \<comment> \<open>numpy: ValueError of \<open>np.argmin\<close> on an empty sequence\<close>
  | ZeroDivisionError     \<comment> \<open>Python: division by zero\<close>
  | FileNotFoundError     \<comment> \<open>\<open>os.listdir\<close> of a missing directory, missing video file\<close>
  | VideoOpenError        \<comment> \<open>RuntimeError: the video file cannot be opened\<close>
  | NoFrameNumbers        \<comment> \<open>ValueError: no frame number list was given\<close>
  | InvalidFrameNumber    \<comment> \<open>ValueError: an invalid frame number exists\<close>
  | NoFramesLeft          \<comment> \<open>ValueError: no frames remain after skipping\<close>
  | NoKeyframesFound      \<comment> \<open>ValueError: no valid keyframe came out of the compressed video\<close>
  | CalledProcessError    \<comment> \<open>\<open>subprocess.run(..., check=True)\<close>: ffmpeg exited with an error\<close>

subsection \<open>numpy on grayscale arrays\<close>

text \<open>\<open>np.abs(curr.astype(int) - prev.astype(int))\<close> on two flattened arrays.\<close>

definition abs_diff :: "int list \<Rightarrow> int list \<Rightarrow> error + int list" where
  "abs_diff curr_frame prev_frame =
     (if length curr_frame \<noteq> length prev_frame then Inl BroadcastError
      else Inr (map (\<lambda>(c, p). \<bar>c - p\<bar>) (zip curr_frame prev_frame)))"

text \<open>\<open>np.mean\<close> of an integer array; \<open>None\<close> is the \<open>nan\<close> of an empty array.\<close>

definition np_mean :: "int list \<Rightarrow> rat option" where
  "np_mean xs =
     (if xs = [] then None else Some (of_int (sum_list xs) / of_int (int (length xs))))"

text \<open>\<open>diff > threshold\<close>; every comparison with \<open>nan\<close> is false.\<close>

definition exceeds :: "rat option \<Rightarrow> int \<Rightarrow> bool" where
  "exceeds diff threshold = (case diff of None \<Rightarrow> False | Some d \<Rightarrow> d > of_int threshold)"

subsection \<open>\<open>detect_shot_boundaries\<close>\<close>

text \<open>
  The loop \<open>for i in range(1, len(frames))\<close>: the list of the indices still to visit and
  the boundaries appended so far.
\<close>

fun detect_loop ::
  "('f \<Rightarrow> int list) \<Rightarrow> 'f list \<Rightarrow> int \<Rightarrow> nat list \<Rightarrow> nat list \<Rightarrow> error + nat list" where
  "detect_loop gray frames threshold [] shot_boundaries = Inr shot_boundaries"
| "detect_loop gray frames threshold (i # rest) shot_boundaries =
     (let prev_frame = gray (frames ! (i - 1));
          curr_frame = gray (frames ! i)
      in case abs_diff curr_frame prev_frame of
           Inl e \<Rightarrow> Inl e
         | Inr d \<Rightarrow>
             detect_loop gray frames threshold rest
               (if exceeds (np_mean d) threshold then shot_boundaries @ [i]
                else shot_boundaries))"

definition detect_shot_boundaries ::
  "('f \<Rightarrow> int list) \<Rightarrow> 'f list \<Rightarrow> int \<Rightarrow> error + nat list" where
  "detect_shot_boundaries gray frames threshold =
     detect_loop gray frames threshold [1..<length frames] []"

text \<open>
  The quantity the loop compares with the threshold, for two frames of one shape: the
  mean absolute difference of their grayscale intensities.
\<close>

definition frame_diff :: "('f \<Rightarrow> int list) \<Rightarrow> 'f \<Rightarrow> 'f \<Rightarrow> rat option" where
  "frame_diff gray prev_frame curr_frame =
     np_mean (map (\<lambda>(c, p). \<bar>c - p\<bar>) (zip (gray curr_frame) (gray prev_frame)))"

definition same_shape :: "('f \<Rightarrow> int list) \<Rightarrow> 'f list \<Rightarrow> bool" where
  "same_shape gray frames =
     (\<forall>f \<in> set frames. \<forall>g \<in> set frames. length (gray f) = length (gray g))"

subsection \<open>\<open>extract_keyframes\<close>\<close>

text \<open>The slice \<open>frames[start:end]\<close> for two positions counted from the front.\<close>

definition py_slice :: "'a list \<Rightarrow> nat \<Rightarrow> nat \<Rightarrow> 'a list" where
  "py_slice xs start end = take (end - start) (drop start xs)"

text \<open>
  The two floating-point computations of \<open>extract_keyframes\<close> are made by the libraries,
  in float64. They are parameters of the model, and a float64 value is the rational
  number it denotes:
  \<^item> \<open>cluster_center fl frame_features\<close> is
    \<open>KMeans(n_clusters=1, random_state=0).fit(frame_features).cluster_centers_[0]\<close> for a
    rectangular array with at least one row and one column;
  \<^item> \<open>sum_sq_diff fl center v\<close> is the entry of
    \<open>np.sum((frame_features - center) ** 2, axis=1)\<close> for the row \<open>v\<close>: numpy subtracts,
    squares and adds row by row, so the entry depends on the row and the centre only.
\<close>

record numerics =
  cluster_center :: "int list list \<Rightarrow> rat list"
  sum_sq_diff :: "rat list \<Rightarrow> int list \<Rightarrow> rat"

text \<open>
  \<open>KMeans(n_clusters=1, random_state=0).fit(frame_features).cluster_centers_[0]\<close>.
  Building the array and fitting fail on no sample, on rows of different lengths and
  on rows without a feature.
\<close>

definition kmeans_center :: "numerics \<Rightarrow> int list list \<Rightarrow> error + rat list" where
  "kmeans_center fl frame_features =
     (case frame_features of
        [] \<Rightarrow> Inl KMeansInputError
      | v # vs \<Rightarrow>
          if v = [] \<or> (\<exists>u \<in> set vs. length u \<noteq> length v) then Inl KMeansInputError
          else Inr (cluster_center fl frame_features))"

text \<open>\<open>np.argmin\<close>: the position of the first occurrence of the minimum.\<close>

fun argmin_loop :: "rat list \<Rightarrow> nat \<Rightarrow> nat \<Rightarrow> rat \<Rightarrow> nat" where
  "argmin_loop [] i best_i best = best_i"
| "argmin_loop (x # xs) i best_i best =
     (if x < best then argmin_loop xs (Suc i) i x else argmin_loop xs (Suc i) best_i best)"

definition np_argmin :: "rat list \<Rightarrow> error + nat" where
  "np_argmin xs = (case xs of [] \<Rightarrow> Inl EmptySequenceError | x # rest \<Rightarrow> Inr (argmin_loop rest 1 0 x))"

text \<open>
  The loop \<open>for i in range(len(shot_boundaries))\<close>, with the two result lists as
  accumulator. \<open>shot_boundaries\<close> holds positions as \<open>detect_shot_boundaries\<close> returns them.
\<close>

fun extract_loop ::
  "numerics \<Rightarrow> ('f \<Rightarrow> int list) \<Rightarrow> 'f list \<Rightarrow> nat list \<Rightarrow> nat list \<Rightarrow> 'f list \<times> nat list
     \<Rightarrow> error + 'f list \<times> nat list" where
  "extract_loop fl gray frames shot_boundaries [] acc = Inr acc"
| "extract_loop fl gray frames shot_boundaries (i # rest) (keyframes, keyframe_indices) =
     (let start = (if i > 0 then shot_boundaries ! (i - 1) else 0);
          end = shot_boundaries ! i;
          shot_frames = py_slice frames start end;
          frame_features = map gray shot_frames
      in case kmeans_center fl frame_features of
           Inl e \<Rightarrow> Inl e
         | Inr center \<Rightarrow>
             (case np_argmin (map (sum_sq_diff fl center) frame_features) of
                Inl e \<Rightarrow> Inl e
              | Inr center_idx \<Rightarrow>
                  extract_loop fl gray frames shot_boundaries rest
                    (keyframes @ [shot_frames ! center_idx],
                     keyframe_indices @ [start + center_idx])))"

definition extract_keyframes ::
  "numerics \<Rightarrow> ('f \<Rightarrow> int list) \<Rightarrow> 'f list \<Rightarrow> nat list \<Rightarrow> error + 'f list \<times> nat list" where
  "extract_keyframes fl gray frames shot_boundaries =
     extract_loop fl gray frames shot_boundaries [0..<length shot_boundaries] ([], [])"

text \<open>The span of shot \<open>i\<close> as the loop computes it.\<close>

definition shot_start :: "nat list \<Rightarrow> nat \<Rightarrow> nat" where
  "shot_start shot_boundaries i = (if i > 0 then shot_boundaries ! (i - 1) else 0)"

definition shot_span :: "'f list \<Rightarrow> nat list \<Rightarrow> nat \<Rightarrow> 'f list" where
  "shot_span frames shot_boundaries i =
     py_slice frames (shot_start shot_boundaries i) (shot_boundaries ! i)"

text \<open>
  The distance that the loop computes for position \<open>j\<close> of a shot: the entry \<open>j\<close> of the
  array given to \<open>np.argmin\<close>.
\<close>

definition computed_dist :: "numerics \<Rightarrow> ('f \<Rightarrow> int list) \<Rightarrow> 'f list \<Rightarrow> nat \<Rightarrow> rat" where
  "computed_dist fl gray shot j =
     sum_sq_diff fl (cluster_center fl (map gray shot)) (gray (shot ! j))"

text \<open>Lines 91 to 94 of the source on their own: the position chosen within one shot.\<close>

definition center_index :: "numerics \<Rightarrow> ('f \<Rightarrow> int list) \<Rightarrow> 'f list \<Rightarrow> error + nat" where
  "center_index fl gray shot_frames =
     (let frame_features = map gray shot_frames
      in case kmeans_center fl frame_features of
           Inl e \<Rightarrow> Inl e
         | Inr center \<Rightarrow> np_argmin (map (sum_sq_diff fl center) frame_features))"

definition first_minimum :: "(nat \<Rightarrow> rat) \<Rightarrow> nat \<Rightarrow> nat \<Rightarrow> bool" where
  "first_minimum d n c =
     (c < n \<and> (\<forall>j < n. d c \<le> d j) \<and> (\<forall>j < c. d c < d j))"


text \<open>What one turn of the loop appends for shot \<open>i\<close>.\<close>

definition chosen :: "numerics \<Rightarrow> ('f \<Rightarrow> int list) \<Rightarrow> 'f list \<Rightarrow> nat list \<Rightarrow> nat \<Rightarrow> 'f \<times> nat \<Rightarrow> bool" where
  "chosen fl gray frames sb i p =
     (\<exists>c. center_index fl gray (shot_span frames sb i) = Inr c
        \<and> p = (shot_span frames sb i ! c, shot_start sb i + c))"

subsection \<open>Python numbers and strings\<close>

text \<open>\<open>int(x)\<close> of a float: truncation towards zero.\<close>

definition py_int :: "rat \<Rightarrow> int" where
  "py_int x = (if x \<ge> 0 then \<lfloor>x\<rfloor> else \<lceil>x\<rceil>)"

text \<open>\<open>x // y\<close> and \<open>x % y\<close> on floats, for a divisor other than zero.\<close>

definition py_floordiv :: "rat \<Rightarrow> rat \<Rightarrow> rat" where
  "py_floordiv x y = of_int \<lfloor>x / y\<rfloor>"

definition py_mod :: "rat \<Rightarrow> rat \<Rightarrow> rat" where
  "py_mod x y = x - y * of_int \<lfloor>x / y\<rfloor>"

definition digit_char :: "nat \<Rightarrow> char" where
  "digit_char d = ''0123456789'' ! d"

text \<open>The decimal digits of a natural number, as \<open>str\<close> prints them.\<close>

function str_nat :: "nat \<Rightarrow> string" where
  "str_nat n = (if n < 10 then [digit_char n] else str_nat (n div 10) @ [digit_char (n mod 10)])"
  by pat_completeness auto
termination
  by (relation "measure id") auto

declare str_nat.simps [simp del]

text \<open>
  The format specifications \<open>{n:02d}\<close> and \<open>{n:06d}\<close>: zeros are filled in after the
  sign up to the given width, and a longer number is printed in full.
\<close>

definition zfill :: "nat \<Rightarrow> string \<Rightarrow> string" where
  "zfill width s = replicate (width - length s) (CHR ''0'') @ s"

definition format_d :: "nat \<Rightarrow> int \<Rightarrow> string" where
  "format_d width n =
     (if n < 0 then CHR ''-'' # zfill (width - 1) (str_nat (nat (- n)))
      else zfill width (str_nat (nat n)))"

text \<open>\<open>int(s)\<close> for a string of decimal digits.\<close>

definition digit_value :: "char \<Rightarrow> int" where
  "digit_value c = int (of_char c) - 48"

definition int_of_digits :: "string \<Rightarrow> int" where
  "int_of_digits s = foldl (\<lambda>a c. 10 * a + digit_value c) 0 s"

definition endswith :: "string \<Rightarrow> string \<Rightarrow> bool" where
  "endswith s suffix =
     (length suffix \<le> length s \<and> drop (length s - length suffix) s = suffix)"

subsection \<open>The pattern \<open>keyframe_(\d+)_\d+\.jpg$\<close>\<close>

text \<open>
  \<open>\d\<close> is a decimal digit. A run \<open>\d+\<close> is followed in the pattern by a character that
  is not a digit, so the only run that can lead to a match is the longest one, and the
  match can be computed without backtracking. \<open>$\<close> matches at the end of the string and
  before a line feed that ends the string.
\<close>

definition isdigit :: "char \<Rightarrow> bool" where
  "isdigit c = (c \<in> set ''0123456789'')"

fun strip_prefix :: "string \<Rightarrow> string \<Rightarrow> string option" where
  "strip_prefix [] s = Some s"
| "strip_prefix (p # ps) [] = None"
| "strip_prefix (p # ps) (c # cs) = (if p = c then strip_prefix ps cs else None)"

text \<open>A match that starts at the first character; the result is group 1.\<close>

definition match_at :: "string \<Rightarrow> string option" where
  "match_at s =
     (case strip_prefix ''keyframe_'' s of
        None \<Rightarrow> None
      | Some r \<Rightarrow>
          let d1 = takeWhile isdigit r; r1 = dropWhile isdigit r
          in if d1 = [] then None
             else (case strip_prefix ''_'' r1 of
                     None \<Rightarrow> None
                   | Some r2 \<Rightarrow>
                       let d2 = takeWhile isdigit r2; r3 = dropWhile isdigit r2
                       in if d2 = [] then None
                          else if r3 = ''.jpg'' \<or> r3 = ''.jpg'' @ [CHR 0x0A] then Some d1
                          else None))"

text \<open>\<open>pattern.search(f)\<close>: the first position from the left at which a match starts.\<close>

fun pattern_search :: "string \<Rightarrow> string option" where
  "pattern_search [] = match_at []"
| "pattern_search (c # cs) =
     (case match_at (c # cs) of Some g \<Rightarrow> Some g | None \<Rightarrow> pattern_search cs)"

subsection \<open>Files, captures and the log\<close>

text \<open>
  A directory is the list of its image files, each a name and the image written. The
  file system maps the path of a directory to its content and the path of a video file
  to what OpenCV finds in it: whether it can be opened, the frame that each position
  decodes to (\<open>None\<close> where reading fails), and the frame count and rate it reports.
\<close>

record 'f video_file =
  decodable :: bool
  content :: "'f option list"
  frame_count :: rat
  frame_rate :: rat

datatype log_msg =
    ReadingFrames              \<comment> \<open>info: reading the video frames\<close>
  | DetectingBoundaries        \<comment> \<open>info: detecting scene boundaries\<close>
  | BoundariesDetected nat     \<comment> \<open>info: so many scene boundaries were detected\<close>
  | CannotReadFrame int        \<comment> \<open>info: the frame of this number cannot be read\<close>
  | FramesExtracted nat        \<comment> \<open>info: so many frames of different timestamps were extracted\<close>
  | StepCompress               \<comment> \<open>info: step 1, compressing the video\<close>
  | FfmpegErrorOutput          \<comment> \<open>error: the error output of ffmpeg\<close>
  | StepLowRes                 \<comment> \<open>info: step 2, keyframes of the compressed video\<close>
  | StepHighRes                \<comment> \<open>info: step 3, high-resolution keyframes\<close>
  | ProcessingDone             \<comment> \<open>info: processing finished\<close>
  | ProcessingFailed           \<comment> \<open>error: video processing failed, with the traceback\<close>
  | RemoveCompressedFailed     \<comment> \<open>warning: deleting the compressed video failed\<close>
  | CleanupFailed              \<comment> \<open>warning: cleaning the temporary files failed\<close>
  | TempCleaned                \<comment> \<open>info: the temporary files were cleaned\<close>

record 'f world =
  dirs :: "string \<rightharpoonup> (string \<times> 'f) list"
  videos :: "string \<rightharpoonup> 'f video_file"
  messages :: "log_msg list"

definition logger :: "log_msg \<Rightarrow> 'f world \<Rightarrow> 'f world" where
  "logger m w = w\<lparr>messages := messages w @ [m]\<rparr>"

text \<open>\<open>os.path.join\<close> of a directory and a relative name.\<close>

definition path_join :: "string \<Rightarrow> string \<Rightarrow> string" where
  "path_join a b = (if a = [] then b else if last a = CHR ''/'' then a @ b else a @ ''/'' @ b)"

text \<open>\<open>if not os.path.exists(d): os.makedirs(d)\<close>, and \<open>os.makedirs(d, exist_ok=True)\<close>.\<close>

definition makedirs :: "string \<Rightarrow> 'f world \<Rightarrow> 'f world" where
  "makedirs d w = (if dirs w d = None then w\<lparr>dirs := (dirs w)(d \<mapsto> [])\<rparr> else w)"

text \<open>
  \<open>cv2.imwrite(os.path.join(d, name), img)\<close>: the file is created, or overwritten where
  it stands. Nothing is written, and nothing raised, when the directory is missing.
\<close>

fun write_entry :: "string \<Rightarrow> 'f \<Rightarrow> (string \<times> 'f) list \<Rightarrow> (string \<times> 'f) list" where
  "write_entry name img [] = [(name, img)]"
| "write_entry name img ((n, x) # es) =
     (if n = name then (name, img) # es else (n, x) # write_entry name img es)"

definition imwrite :: "string \<Rightarrow> string \<Rightarrow> 'f \<Rightarrow> 'f world \<Rightarrow> 'f world" where
  "imwrite d name img w =
     (case dirs w d of
        None \<Rightarrow> w
      | Some es \<Rightarrow> w\<lparr>dirs := (dirs w)(d \<mapsto> write_entry name img es)\<rparr>)"

text \<open>
  \<open>cv2.VideoCapture\<close>: whether it is open, the frames behind it, the position of the
  next frame, and the positions at which a read was attempted so far.
\<close>

record 'f VideoCapture =
  opened :: bool
  stream :: "'f option list"
  pos_frames :: int
  reads :: "int list"

text \<open>\<open>cap.set(cv2.CAP_PROP_POS_FRAMES, n)\<close>, \<open>cap.read()\<close> and \<open>cap.release()\<close>.\<close>

definition cap_set_pos :: "int \<Rightarrow> 'f VideoCapture \<Rightarrow> 'f VideoCapture" where
  "cap_set_pos n c = (if opened c then c\<lparr>pos_frames := n\<rparr> else c)"

definition cap_read :: "'f VideoCapture \<Rightarrow> 'f option \<times> 'f VideoCapture" where
  "cap_read c =
     (let c' = c\<lparr>reads := reads c @ [pos_frames c]\<rparr>
      in if opened c \<and> 0 \<le> pos_frames c \<and> pos_frames c < int (length (stream c))
         then (case stream c ! nat (pos_frames c) of
                 Some frame \<Rightarrow> (Some frame, c'\<lparr>pos_frames := pos_frames c + 1\<rparr>)
               | None \<Rightarrow> (None, c'))
         else (None, c'))"

definition cap_release :: "'f VideoCapture \<Rightarrow> 'f VideoCapture" where
  "cap_release c = c\<lparr>opened := False\<rparr>"

subsection \<open>The class \<open>VideoProcessor\<close>\<close>

record 'f VideoProcessor =
  video_path :: string
  cap :: "'f VideoCapture"
  total_frames :: int
  fps :: int

text \<open>\<open>__init__\<close> and \<open>__del__\<close>.\<close>

definition init :: "string \<Rightarrow> 'f world \<Rightarrow> error + 'f VideoProcessor" where
  "init path w =
     (case videos w path of
        None \<Rightarrow> Inl FileNotFoundError
      | Some v \<Rightarrow>
          if \<not> decodable v then Inl VideoOpenError
          else Inr \<lparr>video_path = path,
                    cap = \<lparr>opened = True, stream = content v, pos_frames = 0, reads = []\<rparr>,
                    total_frames = py_int (frame_count v),
                    fps = py_int (frame_rate v)\<rparr>)"

definition del :: "'f VideoProcessor \<Rightarrow> 'f VideoProcessor" where
  "del self = self\<lparr>cap := cap_release (cap self)\<rparr>"

subsection \<open>\<open>preprocess_video\<close>\<close>

text \<open>
  The generator is consumed to its end by its only caller, so it is modelled by the list
  of the frames it yields, together with the capture it leaves behind. The loop
  \<open>while self.cap.isOpened()\<close> ends because every successful read moves the position one
  frame further in a finite stream.
\<close>

function read_frames :: "'f VideoCapture \<Rightarrow> 'f list \<Rightarrow> 'f list \<times> 'f VideoCapture" where
  "read_frames c frames =
     (if opened c
      then (case fst (cap_read c) of
              None \<Rightarrow> (frames, snd (cap_read c))
            | Some frame \<Rightarrow> read_frames (snd (cap_read c)) (frames @ [frame]))
      else (frames, c))"
  by pat_completeness auto
termination
proof (relation "measure (\<lambda>(c, frames). length (stream c) - nat (pos_frames c))")
  show "wf (measure (\<lambda>(c, frames). length (stream c) - nat (pos_frames c)))"
    by simp
next
  fix c :: "'f VideoCapture" and frames :: "'f list" and frame :: 'f
  assume "opened c" and "fst (cap_read c) = Some frame"
  then show "((snd (cap_read c), frames @ [frame]), (c, frames))
               \<in> measure (\<lambda>(c, frames). length (stream c) - nat (pos_frames c))"
    by (auto simp: cap_read_def Let_def split: if_splits option.splits)
qed

definition preprocess_video :: "'f VideoProcessor \<Rightarrow> 'f list \<times> 'f VideoProcessor" where
  "preprocess_video self =
     (let (frames, c) = read_frames (cap_set_pos 0 (cap self)) []
      in (frames, self\<lparr>cap := c\<rparr>))"

subsection \<open>\<open>save_keyframes\<close>\<close>

definition save_time_str :: "rat \<Rightarrow> string" where
  "save_time_str timestamp =
     (let hours = py_int (py_floordiv timestamp 3600);
          minutes = py_int (py_floordiv (py_mod timestamp 3600) 60);
          seconds = py_int (py_mod timestamp 60)
      in format_d 2 hours @ format_d 2 minutes @ format_d 2 seconds)"

definition keyframe_name :: "int \<Rightarrow> string \<Rightarrow> string" where
  "keyframe_name frame_idx time_str =
     ''keyframe_'' @ format_d 6 frame_idx @ ''_'' @ time_str @ ''.jpg''"

fun save_loop :: "int \<Rightarrow> string \<Rightarrow> ('f \<times> int) list \<Rightarrow> 'f world \<Rightarrow> error option \<times> 'f world" where
  "save_loop rate output_dir [] w = (None, w)"
| "save_loop rate output_dir ((keyframe, frame_idx) # rest) w =
     (if rate = 0 then (Some ZeroDivisionError, w)
      else let timestamp = of_int frame_idx / of_int rate;
               time_str = save_time_str timestamp
           in save_loop rate output_dir rest
                (imwrite output_dir (keyframe_name frame_idx time_str) keyframe w))"

definition save_keyframes ::
  "'f VideoProcessor \<Rightarrow> 'f list \<Rightarrow> int list \<Rightarrow> string \<Rightarrow> 'f world \<Rightarrow> error option \<times> 'f world" where
  "save_keyframes self keyframes keyframe_indices output_dir w =
     save_loop (fps self) output_dir (zip keyframes keyframe_indices) (makedirs output_dir w)"

subsection \<open>\<open>extract_frames_by_numbers\<close>\<close>

definition extract_time_str :: "int \<Rightarrow> string" where
  "extract_time_str timestamp_seconds =
     (let hours = timestamp_seconds div 3600;
          minutes = (timestamp_seconds mod 3600) div 60;
          seconds = timestamp_seconds mod 60
      in format_d 2 hours @ format_d 2 minutes @ format_d 2 seconds)"

text \<open>
  The loop over \<open>frame_numbers\<close>; its state is the capture, the world and the set
  \<open>processed_seconds\<close>.
\<close>

fun extract_frames_loop ::
  "int \<Rightarrow> string \<Rightarrow> int list \<Rightarrow> 'f VideoCapture \<times> 'f world \<times> int set
     \<Rightarrow> error option \<times> 'f VideoCapture \<times> 'f world \<times> int set" where
  "extract_frames_loop rate output_folder [] st = (None, st)"
| "extract_frames_loop rate output_folder (frame_number # rest) (c, w, processed_seconds) =
     (if rate = 0 then (Some ZeroDivisionError, c, w, processed_seconds)
      else let timestamp_seconds = py_int (of_int frame_number / of_int rate)
           in if timestamp_seconds \<in> processed_seconds
              then extract_frames_loop rate output_folder rest (c, w, processed_seconds)
              else let r = cap_read (cap_set_pos frame_number c)
                   in case fst r of
                        Some frame \<Rightarrow>
                          extract_frames_loop rate output_folder rest
                            (snd r,
                             imwrite output_folder
                               (keyframe_name frame_number (extract_time_str timestamp_seconds))
                               frame w,
                             insert timestamp_seconds processed_seconds)
                      | None \<Rightarrow>
                          extract_frames_loop rate output_folder rest
                            (snd r, logger (CannotReadFrame frame_number) w, processed_seconds))"

definition extract_frames_by_numbers ::
  "'f VideoProcessor \<Rightarrow> int list \<Rightarrow> string \<Rightarrow> 'f world
     \<Rightarrow> error option \<times> 'f VideoProcessor \<times> 'f world" where
  "extract_frames_by_numbers self frame_numbers output_folder w =
     (if frame_numbers = [] then (Some NoFrameNumbers, self, w)
      else if \<exists>fn \<in> set frame_numbers. fn \<ge> total_frames self \<or> fn < 0
      then (Some InvalidFrameNumber, self, w)
      else case extract_frames_loop (fps self) output_folder frame_numbers
                  (cap self, makedirs output_folder w, {}) of
             (Some e, c, w', processed_seconds) \<Rightarrow> (Some e, self\<lparr>cap := c\<rparr>, w')
           | (None, c, w', processed_seconds) \<Rightarrow>
               (None, self\<lparr>cap := c\<rparr>, logger (FramesExtracted (card processed_seconds)) w'))"

text \<open>
  The frame numbers that the loop archives when every read succeeds: those whose whole
  second is not yet in \<open>processed_seconds\<close> when their turn comes.
\<close>

fun kept_numbers :: "int \<Rightarrow> int set \<Rightarrow> int list \<Rightarrow> int list" where
  "kept_numbers rate seen [] = []"
| "kept_numbers rate seen (n # ns) =
     (if n div rate \<in> seen then kept_numbers rate seen ns
      else n # kept_numbers rate (insert (n div rate) seen) ns)"

subsection \<open>\<open>extract_numbers_from_folder\<close>\<close>

fun numbers_loop :: "string list \<Rightarrow> int list \<Rightarrow> int list" where
  "numbers_loop [] numbers = numbers"
| "numbers_loop (f # files) numbers =
     (case pattern_search f of
        Some group1 \<Rightarrow> numbers_loop files (numbers @ [int_of_digits group1])
      | None \<Rightarrow> numbers_loop files numbers)"

definition extract_numbers_from_folder :: "string \<Rightarrow> 'f world \<Rightarrow> error + int list" where
  "extract_numbers_from_folder folder_path w =
     (case dirs w folder_path of
        None \<Rightarrow> Inl FileNotFoundError
      | Some entries \<Rightarrow>
          let files = filter (\<lambda>f. endswith f ''.jpg'') (map fst entries)
          in Inr (sort (numbers_loop files [])))"

subsection \<open>\<open>process_video\<close>\<close>

text \<open>The slice \<open>frames[skip_frames:]\<close>; a negative start counts from the end.\<close>

definition py_drop :: "int \<Rightarrow> 'a list \<Rightarrow> 'a list" where
  "py_drop k xs = (if k \<ge> 0 then drop (nat k) xs else drop (length xs - nat (- k)) xs)"

definition process_video ::
  "numerics \<Rightarrow> ('f \<Rightarrow> int list) \<Rightarrow> 'f VideoProcessor \<Rightarrow> string \<Rightarrow> rat \<Rightarrow> int \<Rightarrow> 'f world
     \<Rightarrow> error option \<times> 'f VideoProcessor \<times> 'f world" where
  "process_video fl gray self output_dir skip_seconds threshold w =
     (let skip_frames = py_int (skip_seconds * of_int (fps self));
          w1 = logger ReadingFrames w;
          all_frames = fst (preprocess_video self);
          self1 = snd (preprocess_video self);
          frames = py_drop skip_frames all_frames
      in if frames = [] then (Some NoFramesLeft, self1, w1)
         else let w2 = logger DetectingBoundaries w1
              in case detect_shot_boundaries gray frames threshold of
                   Inl e \<Rightarrow> (Some e, self1, w2)
                 | Inr shot_boundaries \<Rightarrow>
                     let w3 = logger (BoundariesDetected (length shot_boundaries)) w2
                     in case extract_keyframes fl gray frames shot_boundaries of
                          Inl e \<Rightarrow> (Some e, self1, w3)
                        | Inr (keyframes, keyframe_indices) \<Rightarrow>
                            let adjusted_indices =
                                  map (\<lambda>idx. int idx + skip_frames) keyframe_indices;
                                r = save_keyframes self1 keyframes adjusted_indices output_dir w3
                            in (fst r, self1, snd r))"

subsection \<open>\<open>process_video_pipeline\<close>\<close>

text \<open>
  What lies outside the program: the video that ffmpeg writes (\<open>None\<close> when it exits
  with an error), whether deleting the compressed video raises, and how many calls of
  \<open>shutil.rmtree\<close> raise before one succeeds.
\<close>

record 'f environment =
  ffmpeg_result :: "'f video_file option"
  remove_raises :: bool
  rmtree_failures :: nat

text \<open>\<open>os.path.basename\<close> and the root of \<open>os.path.splitext\<close>.\<close>

definition basename :: "string \<Rightarrow> string" where
  "basename p = rev (takeWhile (\<lambda>c. c \<noteq> CHR ''/'') (rev p))"

definition splitext_root :: "string \<Rightarrow> string" where
  "splitext_root b =
     (if CHR ''.'' \<in> set (dropWhile (\<lambda>c. c = CHR ''.'') b)
      then rev (tl (dropWhile (\<lambda>c. c \<noteq> CHR ''.'') (rev b)))
      else b)"

definition under :: "string \<Rightarrow> string \<Rightarrow> bool" where
  "under d p = (p = d \<or> take (length d + 1) p = d @ ''/'')"

text \<open>\<open>shutil.rmtree(d)\<close> when it succeeds, and the loop that tries it three times.\<close>

definition rmtree :: "string \<Rightarrow> 'f world \<Rightarrow> 'f world" where
  "rmtree d w =
     w\<lparr>dirs := (\<lambda>p. if under d p then None else dirs w p),
       videos := (\<lambda>p. if under d p then None else videos w p)\<rparr>"

definition max_retries :: nat where
  "max_retries = 3"

fun rmtree_loop :: "nat list \<Rightarrow> nat \<Rightarrow> string \<Rightarrow> 'f world \<Rightarrow> 'f world" where
  "rmtree_loop [] failures temp_dir w = w"
| "rmtree_loop (i # rest) failures temp_dir w =
     (if failures = 0 then rmtree temp_dir w
      else if i = max_retries - 1
      then rmtree_loop rest (failures - 1) temp_dir (logger CleanupFailed w)
      else rmtree_loop rest (failures - 1) temp_dir w)"

text \<open>
  The \<open>try\<close> block, in two parts. Each part returns the exception raised, if any, and
  the values that the \<open>finally\<close> block reads: \<open>self\<close>, \<open>mini_processor\<close> and
  \<open>compressed_video\<close>. The first part is steps 1 and 2: compressing the video and
  extracting the keyframes of the compressed video.
\<close>

definition pipeline_low_res ::
  "numerics \<Rightarrow> ('f \<Rightarrow> int list) \<Rightarrow> 'f environment \<Rightarrow> 'f VideoProcessor \<Rightarrow> string \<Rightarrow> string
     \<Rightarrow> rat \<Rightarrow> int \<Rightarrow> int \<Rightarrow> 'f world
     \<Rightarrow> error option \<times> 'f VideoProcessor option \<times> string option \<times> 'f world" where
  "pipeline_low_res fl gray env self compressed_dir mini_frames_dir
       skip_seconds threshold compressed_width w =
     (let video_name = splitext_root (basename (video_path self));
          compressed_video = path_join compressed_dir (video_name @ ''_compressed.mp4'');
          w1 = logger StepCompress w
      in case ffmpeg_result env of
           None \<Rightarrow>
             (Some CalledProcessError, None, Some compressed_video, logger FfmpegErrorOutput w1)
         | Some v \<Rightarrow>
             let w2 = logger StepLowRes (w1\<lparr>videos := (videos w1)(compressed_video \<mapsto> v)\<rparr>)
             in case init compressed_video w2 of
                  Inl e \<Rightarrow> (Some e, None, Some compressed_video, w2)
                | Inr mini_processor \<Rightarrow>
                    let p = process_video fl gray mini_processor mini_frames_dir
                              skip_seconds threshold w2
                    in (fst p, Some (fst (snd p)), Some compressed_video, snd (snd p)))"

text \<open>The second part is step 3: the frame numbers and the high-resolution frames.\<close>

definition pipeline_high_res ::
  "'f VideoProcessor \<Rightarrow> string \<Rightarrow> string \<Rightarrow> 'f world
     \<Rightarrow> error option \<times> 'f VideoProcessor \<times> 'f world" where
  "pipeline_high_res self mini_frames_dir hd_frames_dir w =
     (let w4 = logger StepHighRes w
      in case extract_numbers_from_folder mini_frames_dir w4 of
           Inl e \<Rightarrow> (Some e, self, w4)
         | Inr frame_numbers \<Rightarrow>
             if frame_numbers = [] then (Some NoKeyframesFound, self, w4)
             else let x = extract_frames_by_numbers self frame_numbers hd_frames_dir w4
                  in case fst x of
                       Some e \<Rightarrow> (Some e, fst (snd x), snd (snd x))
                     | None \<Rightarrow> (None, fst (snd x), logger ProcessingDone (snd (snd x))))"

definition pipeline_try ::
  "numerics \<Rightarrow> ('f \<Rightarrow> int list) \<Rightarrow> 'f environment \<Rightarrow> 'f VideoProcessor \<Rightarrow> string \<Rightarrow> string \<Rightarrow> string
     \<Rightarrow> rat \<Rightarrow> int \<Rightarrow> int \<Rightarrow> 'f world
     \<Rightarrow> error option \<times> 'f VideoProcessor \<times> 'f VideoProcessor option \<times> string option \<times> 'f world" where
  "pipeline_try fl gray env self compressed_dir mini_frames_dir hd_frames_dir
       skip_seconds threshold compressed_width w =
     (let l = pipeline_low_res fl gray env self compressed_dir mini_frames_dir
                skip_seconds threshold compressed_width w
      in case fst l of
           Some e \<Rightarrow> (Some e, self, fst (snd l), fst (snd (snd l)), snd (snd (snd l)))
         | None \<Rightarrow>
             let h = pipeline_high_res self mini_frames_dir hd_frames_dir (snd (snd (snd l)))
             in (fst h, fst (snd h), fst (snd l), fst (snd (snd l)), snd (snd h)))"

text \<open>
  The \<open>finally\<close> block: its two deletions first, each with the handler that turns a
  failure into a warning.
\<close>

definition remove_compressed_video :: "'f environment \<Rightarrow> string option \<Rightarrow> 'f world \<Rightarrow> 'f world" where
  "remove_compressed_video env compressed_video w =
     (case compressed_video of
        None \<Rightarrow> w
      | Some p \<Rightarrow>
          if videos w p = None then w
          else if remove_raises env then logger RemoveCompressedFailed w
          else w\<lparr>videos := (videos w)(p := None)\<rparr>)"

definition remove_temp_dir :: "'f environment \<Rightarrow> string \<Rightarrow> 'f world \<Rightarrow> 'f world" where
  "remove_temp_dir env temp_dir w =
     (if dirs w temp_dir = None then w
      else rmtree_loop [0..<max_retries] (rmtree_failures env) temp_dir w)"

definition pipeline_finally ::
  "'f environment \<Rightarrow> 'f VideoProcessor \<Rightarrow> 'f VideoProcessor option \<Rightarrow> string option \<Rightarrow> string
     \<Rightarrow> bool \<Rightarrow> 'f world \<Rightarrow> 'f VideoProcessor \<times> 'f VideoProcessor option \<times> 'f world" where
  "pipeline_finally env self mini_processor compressed_video temp_dir keep_temp w =
     (let mini = map_option (\<lambda>m. m\<lparr>cap := cap_release (cap m)\<rparr>) mini_processor;
          self' = self\<lparr>cap := cap_release (cap self)\<rparr>
      in if keep_temp then (self', mini, w)
         else (self', mini,
               logger TempCleaned
                 (remove_temp_dir env temp_dir
                    (remove_compressed_video env compressed_video w))))"

text \<open>
  The whole method: the directories, the \<open>try\<close> block, the \<open>except\<close> clause that logs
  and raises again, and the \<open>finally\<close> block. Besides the exception it returns the two
  processors and the world as the method leaves them.
\<close>

definition process_video_pipeline ::
  "numerics \<Rightarrow> ('f \<Rightarrow> int list) \<Rightarrow> 'f environment \<Rightarrow> 'f VideoProcessor \<Rightarrow> string \<Rightarrow> rat \<Rightarrow> int \<Rightarrow> int
     \<Rightarrow> bool \<Rightarrow> 'f world
     \<Rightarrow> error option \<times> 'f VideoProcessor \<times> 'f VideoProcessor option \<times> 'f world" where
  "process_video_pipeline fl gray env self output_dir skip_seconds threshold compressed_width
       keep_temp w =
     (let temp_dir = path_join output_dir ''temp'';
          compressed_dir = path_join temp_dir ''compressed'';
          mini_frames_dir = path_join temp_dir ''mini_frames'';
          hd_frames_dir = output_dir;
          w0 = makedirs hd_frames_dir (makedirs mini_frames_dir (makedirs compressed_dir
                 (makedirs temp_dir (makedirs output_dir w))));
          t = pipeline_try fl gray env self compressed_dir mini_frames_dir hd_frames_dir
                skip_seconds threshold compressed_width w0;
          err = fst t;
          w1 = (case err of
                  Some e \<Rightarrow> logger ProcessingFailed (snd (snd (snd (snd t))))
                | None \<Rightarrow> snd (snd (snd (snd t))));
          f = pipeline_finally env (fst (snd t)) (fst (snd (snd t))) (fst (snd (snd (snd t))))
                temp_dir keep_temp w1
      in (err, fst f, fst (snd f), snd (snd f)))"

subsection \<open>float64 numerics for the examples\<close>

text \<open>
  The examples need numerics to run with. \<open>float64 x\<close> is the float64 nearest to the
  rational \<open>x\<close>, a tie going to the even significand: IEEE 754 rounding to nearest with
  a significand of 53 bits. The range of the exponent is not modelled; the examples stay
  far from overflow and from the subnormal numbers.
\<close>

fun bitlen :: "nat \<Rightarrow> nat" where
  "bitlen n = (if n = 0 then 0 else Suc (bitlen (n div 2)))"

declare bitlen.simps [simp del]

definition pow2 :: "int \<Rightarrow> rat" where
  "pow2 e = (if e \<ge> 0 then 2 ^ nat e else 1 / 2 ^ nat (- e))"

text \<open>The exponent \<open>e\<close> with \<open>2 ^ e \<le> a < 2 ^ (e + 1)\<close>, for \<open>a > 0\<close>.\<close>

definition binary_exponent :: "rat \<Rightarrow> int" where
  "binary_exponent a =
     (if a \<ge> 1 then int (bitlen (nat \<lfloor>a\<rfloor>)) - 1 else - int (bitlen (nat (\<lceil>1 / a\<rceil> - 1))))"

definition round_half_even :: "rat \<Rightarrow> int" where
  "round_half_even m =
     (let n = \<lfloor>m\<rfloor>; r = m - of_int n
      in if r < 1 / 2 then n else if r > 1 / 2 then n + 1 else if even n then n else n + 1)"

definition float64 :: "rat \<Rightarrow> rat" where
  "float64 x =
     (if x = 0 then 0
      else let q = pow2 (binary_exponent \<bar>x\<bar> - 52)
           in sgn x * of_int (round_half_even (\<bar>x\<bar> / q)) * q)"

text \<open>
  Numerics in which every arithmetic operation is rounded to float64. The centre of the
  single cluster is the column sum divided by the number of rows; scikit-learn subtracts
  the column means from the array before it iterates and adds them to the centre at the
  end, which for the shots of the examples gives the same float64 values. The squares of
  a row are added from left to right, which is the order of numpy for a row of fewer
  than eight entries. The theorems hold for all numerics; these are used where an
  example has to run.
\<close>

definition float64_mean :: "int list list \<Rightarrow> nat \<Rightarrow> rat" where
  "float64_mean frame_features j =
     float64 (float64 (of_int (sum_list (map (\<lambda>v. v ! j) frame_features)))
              / of_nat (length frame_features))"

definition float64_sum_sq_diff :: "rat list \<Rightarrow> int list \<Rightarrow> rat" where
  "float64_sum_sq_diff center v =
     foldl (\<lambda>s (x, m). float64 (s + float64 (float64 (of_int x - m) * float64 (of_int x - m))))
       0 (zip v center)"

definition float64_numerics :: numerics where
  "float64_numerics =
     \<lparr>cluster_center =
        (\<lambda>frame_features. map (float64_mean frame_features) [0..<length (hd frame_features)]),
      sum_sq_diff = float64_sum_sq_diff\<rparr>"

subsection \<open>A small video for the examples\<close>

definition demo_cap :: "int list VideoCapture" where
  "demo_cap = \<lparr>opened = True, stream = [Some [0, 0], Some [1, 1], Some [200, 200]],
                pos_frames = 0, reads = []\<rparr>"

definition demo_self :: "int list VideoProcessor" where
  "demo_self = \<lparr>video_path = ''demo.mp4'', cap = demo_cap, total_frames = 3, fps = 1\<rparr>"

definition demo_world :: "int list world" where
  "demo_world = \<lparr>dirs = Map.empty, videos = Map.empty, messages = []\<rparr>"

text \<open>The name that \<open>save_keyframes\<close> gives to the file of a frame index.\<close>

definition saved_name :: "int \<Rightarrow> int \<Rightarrow> string" where
  "saved_name rate frame_idx =
     keyframe_name frame_idx (save_time_str (of_int frame_idx / of_int rate))"

text \<open>What the scan reads in a file name that matches.\<close>

definition scanned_number :: "string \<Rightarrow> int" where
  "scanned_number f = (case pattern_search f of Some group1 \<Rightarrow> int_of_digits group1 | None \<Rightarrow> 0)"

text \<open>
  The file that the loop writes for a frame number whose read succeeds, added to the
  listing of the output folder.
\<close>

definition archive_entry ::
  "int \<Rightarrow> 'f option list \<Rightarrow> (string \<times> 'f) list \<Rightarrow> int \<Rightarrow> (string \<times> 'f) list" where
  "archive_entry rate frames es n =
     (case frames ! nat n of
        Some frame \<Rightarrow> write_entry (keyframe_name n (extract_time_str (n div rate))) frame es
      | None \<Rightarrow> es)"

text \<open>A processor over four frames at two frames per second.\<close>

definition demo_self2 :: "int list VideoProcessor" where
  "demo_self2 =
     \<lparr>video_path = ''demo2.mp4'',
      cap = \<lparr>opened = True,
             stream = [Some [0, 0], Some [1, 1], Some [200, 200], Some [201, 201]],
             pos_frames = 0, reads = []\<rparr>,
      total_frames = 4, fps = 2\<rparr>"

text \<open>
  An example run of the pipeline: the compressed video has three frames of a
  single scene, so that the low-resolution pass saves no keyframe, and the first attempt
  at removing the temporary directory fails.
\<close>

definition demo_env :: "int list environment" where
  "demo_env =
     \<lparr>ffmpeg_result = Some \<lparr>decodable = True,
                              content = [Some [0, 0], Some [1, 1], Some [2, 2]],
                              frame_count = 3, frame_rate = 1\<rparr>,
      remove_raises = False, rmtree_failures = 1\<rparr>"

definition demo_low ::
  "error option \<times> int list VideoProcessor option \<times> string option \<times> int list world" where
  "demo_low = pipeline_low_res float64_numerics id demo_env demo_self ''out/temp/compressed''
                ''out/temp/mini_frames'' 0 30 320
                (makedirs ''out'' (makedirs ''out/temp/mini_frames''
                   (makedirs ''out/temp/compressed'' (makedirs ''out/temp''
                      (makedirs ''out'' demo_world)))))"

definition demo_run ::
  "error option \<times> int list VideoProcessor \<times> int list VideoProcessor option \<times> int list world" where
  "demo_run =
     process_video_pipeline float64_numerics id demo_env demo_self ''out'' 0 30 320 False
       demo_world"

text \<open>
  The same run when the temporary files are to be kept, when all three attempts at
  removing the temporary directory fail, and when moreover the compressed video cannot
  be removed; \<open>demo_try\<close> is the \<open>try\<close> block of the run.
\<close>

definition demo_env_stuck :: "int list environment" where
  "demo_env_stuck = demo_env\<lparr>rmtree_failures := 3\<rparr>"

definition demo_try ::
  "error option \<times> int list VideoProcessor \<times> int list VideoProcessor option \<times> string option
     \<times> int list world" where
  "demo_try = pipeline_try float64_numerics id demo_env demo_self ''out/temp/compressed''
                ''out/temp/mini_frames'' ''out'' 0 30 320
                (makedirs ''out'' (makedirs ''out/temp/mini_frames''
                   (makedirs ''out/temp/compressed'' (makedirs ''out/temp''
                      (makedirs ''out'' demo_world)))))"

definition demo_run_keep ::
  "error option \<times> int list VideoProcessor \<times> int list VideoProcessor option \<times> int list world" where
  "demo_run_keep =
     process_video_pipeline float64_numerics id demo_env demo_self ''out'' 0 30 320 True demo_world"

definition demo_try_stuck ::
  "error option \<times> int list VideoProcessor \<times> int list VideoProcessor option \<times> string option
     \<times> int list world" where
  "demo_try_stuck =
     pipeline_try float64_numerics id demo_env_stuck demo_self ''out/temp/compressed''
       ''out/temp/mini_frames'' ''out'' 0 30 320
       (makedirs ''out'' (makedirs ''out/temp/mini_frames''
          (makedirs ''out/temp/compressed'' (makedirs ''out/temp''
             (makedirs ''out'' demo_world)))))"

definition demo_run_stuck ::
  "error option \<times> int list VideoProcessor \<times> int list VideoProcessor option \<times> int list world" where
  "demo_run_stuck =
     process_video_pipeline float64_numerics id demo_env_stuck demo_self ''out'' 0 30 320 False
       demo_world"

definition demo_env_locked :: "int list environment" where
  "demo_env_locked = demo_env\<lparr>remove_raises := True, rmtree_failures := 3\<rparr>"

definition demo_try_locked ::
  "error option \<times> int list VideoProcessor \<times> int list VideoProcessor option \<times> string option
     \<times> int list world" where
  "demo_try_locked =
     pipeline_try float64_numerics id demo_env_locked demo_self ''out/temp/compressed''
       ''out/temp/mini_frames'' ''out'' 0 30 320
       (makedirs ''out'' (makedirs ''out/temp/mini_frames''
          (makedirs ''out/temp/compressed'' (makedirs ''out/temp''
             (makedirs ''out'' demo_world)))))"

definition demo_run_locked ::
  "error option \<times> int list VideoProcessor \<times> int list VideoProcessor option \<times> int list world" where
  "demo_run_locked =
     process_video_pipeline float64_numerics id demo_env_locked demo_self ''out'' 0 30 320 False
       demo_world"

section \<open>Shot boundaries\<close>

lemma detect_loop_same_shape:
  assumes "\<forall>i \<in> set is. 0 < i \<and> i < length frames" and "same_shape gray frames"
  shows "detect_loop gray frames threshold is acc =
           Inr (acc @ filter (\<lambda>i. exceeds (frame_diff gray (frames ! (i - 1)) (frames ! i)) threshold) is)"
  using assms
proof (induction "is" arbitrary: acc)
  case Nil
  then show ?case by simp
next
  case (Cons i rest)
  from Cons.prems have i: "0 < i" "i < length frames" by simp_all
  then have "frames ! i \<in> set frames" "frames ! (i - 1) \<in> set frames"
    by (simp_all add: less_imp_diff_less)
  with Cons.prems(2) have len: "length (gray (frames ! i)) = length (gray (frames ! (i - 1)))"
    unfolding same_shape_def by blast
  from Cons.prems have rest: "\<forall>i \<in> set rest. 0 < i \<and> i < length frames" by simp
  show ?case
    using len Cons.IH [OF rest Cons.prems(2)]
    by (simp add: abs_diff_def frame_diff_def Let_def)
qed


lemma detect_shot_boundaries_filter:
  assumes "same_shape gray frames"
  shows "detect_shot_boundaries gray frames threshold =
           Inr (filter (\<lambda>i. exceeds (frame_diff gray (frames ! (i - 1)) (frames ! i)) threshold)
                  [1..<length frames])"
  unfolding detect_shot_boundaries_def
  using detect_loop_same_shape [of "[1..<length frames]" frames gray threshold "[]"] assms
  by simp

lemma sum_list_zip_nth:
  assumes "length xs = length ys"
  shows "sum_list (map (\<lambda>(c, p). f c p) (zip xs ys)) = (\<Sum>k < length xs. f (xs ! k) (ys ! k))"
proof -
  have "sum_list (map (\<lambda>(c, p). f c p) (zip xs ys))
        = (\<Sum>k = 0..<length xs. map (\<lambda>(c, p). f c p) (zip xs ys) ! k)"
    using assms by (simp add: sum_list_sum_nth)
  also have "\<dots> = (\<Sum>k = 0..<length xs. f (xs ! k) (ys ! k))"
    using assms by (intro sum.cong) simp_all
  finally show ?thesis by (simp add: atLeast0LessThan)
qed

lemma exceeds_frame_diff:
  assumes "length (gray curr_frame) = length (gray prev_frame)"
  shows "exceeds (frame_diff gray prev_frame curr_frame) threshold \<longleftrightarrow>
           gray curr_frame \<noteq> []
           \<and> (of_int threshold :: rat)
               < of_int (\<Sum>k < length (gray curr_frame).
                           \<bar>gray curr_frame ! k - gray prev_frame ! k\<bar>)
                 / of_nat (length (gray curr_frame))"
proof -
  have "sum_list (map (\<lambda>(c, p). \<bar>c - p\<bar>) (zip (gray curr_frame) (gray prev_frame)))
        = (\<Sum>k < length (gray curr_frame). \<bar>gray curr_frame ! k - gray prev_frame ! k\<bar>)"
    by (rule sum_list_zip_nth [OF assms])
  moreover have "zip (gray curr_frame) (gray prev_frame) = [] \<longleftrightarrow> gray curr_frame = []"
    using assms by (cases "gray curr_frame"; cases "gray prev_frame") simp_all
  ultimately show ?thesis
    using assms by (simp add: exceeds_def frame_diff_def np_mean_def)
qed

text \<open>
  Claim C5. For frames of one shape, \<open>detect_shot_boundaries\<close> returns a list that
  contains the index \<open>i\<close> exactly when \<open>1 \<le> i < N\<close> and the mean absolute difference of
  the grayscale frames \<open>i - 1\<close> and \<open>i\<close>, the sum of the absolute differences of their
  pixels divided by the number of pixels, is greater than the threshold; frames without
  a pixel have the mean \<open>nan\<close>, which is greater than nothing. The list is strictly
  increasing and lies within \<open>1..N-1\<close>, and when a single index \<open>k\<close> exceeds the
  threshold the list is \<open>[k]\<close>.
\<close>

theorem detect_shot_boundaries_threshold:
  assumes "same_shape gray frames"
    and "diff = (\<lambda>i. of_int (\<Sum>k < length (gray (frames ! i)).
                              \<bar>gray (frames ! i) ! k - gray (frames ! (i - 1)) ! k\<bar>)
                      / of_nat (length (gray (frames ! i))))"
  shows "\<exists>bs. detect_shot_boundaries gray frames threshold = Inr bs
     \<and> (\<forall>i. i \<in> set bs \<longleftrightarrow>
            1 \<le> i \<and> i < length frames
            \<and> gray (frames ! i) \<noteq> [] \<and> (of_int threshold :: rat) < diff i)
     \<and> sorted_wrt (<) bs
     \<and> set bs \<subseteq> {1..<length frames}
     \<and> (\<forall>k. 1 \<le> k \<and> k < length frames
            \<and> (\<forall>i. 1 \<le> i \<and> i < length frames \<longrightarrow>
                  (gray (frames ! i) \<noteq> [] \<and> of_int threshold < diff i \<longleftrightarrow> i = k))
            \<longrightarrow> bs = [k])"
proof -
  let ?Q = "\<lambda>i. exceeds (frame_diff gray (frames ! (i - 1)) (frames ! i)) threshold"
  let ?P = "\<lambda>i. gray (frames ! i) \<noteq> [] \<and> (of_int threshold :: rat) < diff i"
  let ?bs = "filter ?Q [1..<length frames]"
  have PQ: "?Q i \<longleftrightarrow> ?P i" if "1 \<le> i" "i < length frames" for i
  proof -
    from that have "frames ! i \<in> set frames" "frames ! (i - 1) \<in> set frames"
      by (simp_all add: less_imp_diff_less)
    with assms(1) have "length (gray (frames ! i)) = length (gray (frames ! (i - 1)))"
      unfolding same_shape_def by blast
    from exceeds_frame_diff [of gray "frames ! i" "frames ! (i - 1)" threshold, OF this]
    show ?thesis unfolding assms(2) by simp
  qed
  have run: "detect_shot_boundaries gray frames threshold = Inr ?bs"
    by (rule detect_shot_boundaries_filter [OF assms(1)])
  have mem: "\<forall>i. i \<in> set ?bs \<longleftrightarrow> 1 \<le> i \<and> i < length frames \<and> ?P i"
    using PQ by auto
  have inc: "sorted_wrt (<) ?bs"
    by (rule sorted_wrt_filter) (rule sorted_wrt_upt)
  have sub: "set ?bs \<subseteq> {1..<length frames}"
    by auto
  have spike: "?bs = [k]"
    if k: "1 \<le> k \<and> k < length frames \<and> (\<forall>i. 1 \<le> i \<and> i < length frames \<longrightarrow> (?P i \<longleftrightarrow> i = k))"
    for k
  proof (rule strict_sorted_equal [OF _ inc])
    show "sorted_wrt (<) [k]" by simp
    show "set ?bs = set [k]" using k mem by auto
  qed
  from run mem inc sub spike show ?thesis by blast
qed

theorem detect_shot_boundaries_threshold_witness:
  "same_shape id [[0, 0], [40, 0], [70, 30], [70, 130 :: int]]
   \<and> (of_int (\<Sum>k < 2. \<bar>[40, 0] ! k - [0, 0] ! k\<bar>) / of_nat 2 :: rat) = 20
   \<and> (of_int (\<Sum>k < 2. \<bar>[70, 30] ! k - [40, 0] ! k\<bar>) / of_nat 2 :: rat) = 30
   \<and> (of_int (\<Sum>k < 2. \<bar>[70, 130] ! k - [70, 30] ! k\<bar>) / of_nat 2 :: rat) = 50
   \<and> detect_shot_boundaries id [[0, 0], [40, 0], [70, 30], [70, 130 :: int]] 30 = Inr [3]"
proof -
  define F where "F = [[0, 0], [40, 0], [70, 30], [70, 130 :: int]]"
  define diff :: "nat \<Rightarrow> rat" where
    "diff = (\<lambda>i. of_int (\<Sum>k < length (id (F ! i)). \<bar>id (F ! i) ! k - id (F ! (i - 1)) ! k\<bar>)
                      / of_nat (length (id (F ! i))))"
  have h: "same_shape id F" by (simp add: same_shape_def F_def)
  have d: "diff 1 = 20" "diff 2 = 30" "diff 3 = 50"
    by (simp_all add: diff_def F_def numeral_2_eq_2)
  have len: "length F = 4" by (simp add: F_def)
  have ne: "id (F ! i) \<noteq> []" if "i < 4" for i
  proof -
    from that have "i = 0 \<or> i = 1 \<or> i = 2 \<or> i = 3" by arith
    then show ?thesis by (elim disjE) (simp_all add: F_def)
  qed
  obtain bs where run: "detect_shot_boundaries id F 30 = Inr bs"
    and spike: "\<forall>k. 1 \<le> k \<and> k < length F
            \<and> (\<forall>i. 1 \<le> i \<and> i < length F \<longrightarrow>
                  (id (F ! i) \<noteq> [] \<and> of_int 30 < diff i \<longleftrightarrow> i = k))
            \<longrightarrow> bs = [k]"
    using detect_shot_boundaries_threshold [OF h diff_def, of 30] by blast
  have "\<forall>i. 1 \<le> i \<and> i < length F \<longrightarrow> (id (F ! i) \<noteq> [] \<and> of_int 30 < diff i \<longleftrightarrow> i = 3)"
  proof (intro allI impI)
    fix i :: nat assume "1 \<le> i \<and> i < length F"
    then have "i = 1 \<or> i = 2 \<or> i = 3" by (auto simp: len)
    then show "id (F ! i) \<noteq> [] \<and> of_int 30 < diff i \<longleftrightarrow> i = 3"
      using ne [of i] by (elim disjE; simp only: d; simp)
  qed
  with spike have "bs = [3]" by (simp add: len)
  with run have r: "detect_shot_boundaries id F 30 = Inr [3]" by simp
  have v: "(of_int (\<Sum>k < 2. \<bar>[40, 0] ! k - [0, 0] ! k\<bar>) / of_nat 2 :: rat) = 20"
    "(of_int (\<Sum>k < 2. \<bar>[70, 30] ! k - [40, 0] ! k\<bar>) / of_nat 2 :: rat) = 30"
    "(of_int (\<Sum>k < 2. \<bar>[70, 130] ! k - [70, 30] ! k\<bar>) / of_nat 2 :: rat) = 50"
    by (simp_all add: numeral_2_eq_2)
  from h r v show ?thesis unfolding F_def by blast
qed

text \<open>
  Claim C1. Three frames whose successive differences stay below the threshold: no
  boundary is detected, and \<open>extract_keyframes\<close> on the empty boundary list runs its loop
  zero times and returns no keyframe at all, although the docstring promises a keyframe
  from each shot and the frames form one shot.
\<close>

theorem no_boundary_no_keyframe:
  "detect_shot_boundaries id [[7, 7], [7, 7], [8, 8 :: int]] 30 = Inr []
   \<and> extract_keyframes float64_numerics id [[7, 7], [7, 7], [8, 8 :: int]] [] = Inr ([], [])"
  by (simp add: detect_shot_boundaries_def extract_keyframes_def abs_diff_def np_mean_def
        exceeds_def upt_rec)

section \<open>Representative frames\<close>


lemma argmin_loop_first_minimum:
  assumes "length pre = i" and "best_i < i" and "pre ! best_i = best"
    and "\<forall>j < i. best \<le> pre ! j" and "\<forall>j < best_i. best < pre ! j"
  shows "first_minimum (\<lambda>j. (pre @ xs) ! j) (length (pre @ xs)) (argmin_loop xs i best_i best)"
  using assms
proof (induction xs arbitrary: pre i best_i best)
  case Nil
  then show ?case by (simp add: first_minimum_def)
next
  case (Cons x xs)
  let ?pre = "pre @ [x]"
  show ?case
  proof (cases "x < best")
    case True
    have "first_minimum (\<lambda>j. (?pre @ xs) ! j) (length (?pre @ xs)) (argmin_loop xs (Suc i) i x)"
    proof (rule Cons.IH)
      show "length ?pre = Suc i" using Cons.prems(1) by simp
      show "i < Suc i" by simp
      show "?pre ! i = x" using Cons.prems(1) by (simp add: nth_append)
      show "\<forall>j < Suc i. x \<le> ?pre ! j"
        using Cons.prems(1,4) True by (auto simp: nth_append less_Suc_eq)
      show "\<forall>j < i. x < ?pre ! j"
        using Cons.prems(1,4) True by (auto simp: nth_append)
    qed
    with True show ?thesis by simp
  next
    case False
    have "first_minimum (\<lambda>j. (?pre @ xs) ! j) (length (?pre @ xs)) (argmin_loop xs (Suc i) best_i best)"
    proof (rule Cons.IH)
      show "length ?pre = Suc i" using Cons.prems(1) by simp
      show "best_i < Suc i" using Cons.prems(2) by simp
      show "?pre ! best_i = best" using Cons.prems(1,2,3) by (simp add: nth_append)
      show "\<forall>j < Suc i. best \<le> ?pre ! j"
        using Cons.prems(1,4) False by (auto simp: nth_append less_Suc_eq)
      show "\<forall>j < best_i. best < ?pre ! j"
        using Cons.prems(1,2,5) by (auto simp: nth_append)
    qed
    with False show ?thesis by simp
  qed
qed

lemma np_argmin_first_minimum:
  assumes "np_argmin ds = Inr c"
  shows "ds \<noteq> [] \<and> first_minimum (\<lambda>j. ds ! j) (length ds) c"
proof (cases ds)
  case Nil
  with assms show ?thesis by (simp add: np_argmin_def)
next
  case (Cons d rest)
  with assms have c: "c = argmin_loop rest 1 0 d" by (simp add: np_argmin_def)
  have "first_minimum (\<lambda>j. ([d] @ rest) ! j) (length ([d] @ rest)) (argmin_loop rest 1 0 d)"
    by (rule argmin_loop_first_minimum) simp_all
  with c Cons show ?thesis by simp
qed

lemma kmeans_center_Inr:
  assumes "kmeans_center fl vs = Inr center"
  shows "vs \<noteq> [] \<and> center = cluster_center fl vs"
  using assms by (cases vs) (auto simp: kmeans_center_def split: if_splits)

lemma center_index_cases:
  assumes "center_index fl gray shot = Inr c"
  obtains center where "kmeans_center fl (map gray shot) = Inr center"
    and "np_argmin (map (sum_sq_diff fl center) (map gray shot)) = Inr c"
proof (cases "kmeans_center fl (map gray shot)")
  case (Inl e)
  with assms show ?thesis by (simp add: center_index_def)
next
  case (Inr center)
  with assms have "np_argmin (map (sum_sq_diff fl center) (map gray shot)) = Inr c"
    by (simp add: center_index_def)
  with Inr that show ?thesis by blast
qed

lemma center_index_Inr:
  assumes "center_index fl gray shot = Inr c"
  shows "shot \<noteq> [] \<and> first_minimum (computed_dist fl gray shot) (length shot) c"
proof -
  from assms obtain center where k: "kmeans_center fl (map gray shot) = Inr center"
    and a: "np_argmin (map (sum_sq_diff fl center) (map gray shot)) = Inr c"
    by (rule center_index_cases)
  from kmeans_center_Inr [OF k] have ne: "shot \<noteq> []" and cen: "center = cluster_center fl (map gray shot)"
    by simp_all
  define ds where "ds = map (sum_sq_diff fl center) (map gray shot)"
  have len: "length ds = length shot" by (simp add: ds_def)
  from np_argmin_first_minimum [of ds c] a
  have fm: "first_minimum (\<lambda>j. ds ! j) (length shot) c"
    by (simp add: ds_def)
  have d: "ds ! j = computed_dist fl gray shot j" if "j < length shot" for j
    using that by (simp add: computed_dist_def cen ds_def)
  from fm have c: "c < length shot" by (simp add: first_minimum_def)
  have "first_minimum (computed_dist fl gray shot) (length shot) c"
    unfolding first_minimum_def
  proof (intro conjI allI impI)
    show "c < length shot" by (rule c)
  next
    fix j assume j: "j < length shot"
    with fm have "ds ! c \<le> ds ! j" by (simp add: first_minimum_def)
    with d [OF c] d [OF j] show "computed_dist fl gray shot c \<le> computed_dist fl gray shot j" by simp
  next
    fix j assume j: "j < c"
    with c have j': "j < length shot" by simp
    from j fm have "ds ! c < ds ! j" by (simp add: first_minimum_def)
    with d [OF c] d [OF j'] show "computed_dist fl gray shot c < computed_dist fl gray shot j" by simp
  qed
  with ne show ?thesis by simp
qed



lemma extract_loop_step:
  "extract_loop fl gray frames sb (i # rest) (keyframes, keyframe_indices) =
     (case center_index fl gray (shot_span frames sb i) of
        Inl e \<Rightarrow> Inl e
      | Inr c \<Rightarrow>
          extract_loop fl gray frames sb rest
            (keyframes @ [shot_span frames sb i ! c], keyframe_indices @ [shot_start sb i + c]))"
proof -
  define start where "start = (if i > 0 then sb ! (i - 1) else 0)"
  define shot where "shot = py_slice frames start (sb ! i)"
  have L: "extract_loop fl gray frames sb (i # rest) (keyframes, keyframe_indices) =
     (case kmeans_center fl (map gray shot) of
        Inl e \<Rightarrow> Inl e
      | Inr center \<Rightarrow>
          (case np_argmin (map (sum_sq_diff fl center) (map gray shot)) of
             Inl e \<Rightarrow> Inl e
           | Inr c \<Rightarrow>
               extract_loop fl gray frames sb rest
                 (keyframes @ [shot ! c], keyframe_indices @ [start + c])))"
    unfolding extract_loop.simps Let_def start_def shot_def by (rule refl)
  have R: "shot_span frames sb i = shot" "shot_start sb i = start"
    unfolding shot_span_def shot_start_def shot_def start_def by (rule refl)+
  show ?thesis
    unfolding L R center_index_def Let_def
    by (cases "kmeans_center fl (map gray shot)") simp_all
qed

lemma extract_loop_Inr:
  assumes "extract_loop fl gray frames sb is (ks, kis) = Inr (ks', kis')"
  shows "\<exists>ps. list_all2 (chosen fl gray frames sb) is ps
            \<and> ks' = ks @ map fst ps \<and> kis' = kis @ map snd ps"
  using assms
proof (induction "is" arbitrary: ks kis)
  case Nil
  then show ?case by simp
next
  case (Cons i rest)
  from Cons.prems obtain c where c: "center_index fl gray (shot_span frames sb i) = Inr c"
    and run: "extract_loop fl gray frames sb rest
                (ks @ [shot_span frames sb i ! c], kis @ [shot_start sb i + c]) = Inr (ks', kis')"
    unfolding extract_loop_step by (cases "center_index fl gray (shot_span frames sb i)") simp_all
  from Cons.IH [OF run] obtain ps where ps: "list_all2 (chosen fl gray frames sb) rest ps"
    and k: "ks' = (ks @ [shot_span frames sb i ! c]) @ map fst ps"
    and ki: "kis' = (kis @ [shot_start sb i + c]) @ map snd ps"
    by blast
  let ?p = "(shot_span frames sb i ! c, shot_start sb i + c)"
  have "chosen fl gray frames sb i ?p" using c by (simp add: chosen_def)
  with ps have "list_all2 (chosen fl gray frames sb) (i # rest) (?p # ps)" by simp
  moreover have "ks' = ks @ map fst (?p # ps)" using k by simp
  moreover have "kis' = kis @ map snd (?p # ps)" using ki by simp
  ultimately show ?case by blast
qed






lemma extract_keyframes_chosen:
  assumes "extract_keyframes fl gray frames sb = Inr (keyframes, keyframe_indices)"
  shows "length keyframes = length sb \<and> length keyframe_indices = length sb
         \<and> (\<forall>i < length sb. chosen fl gray frames sb i (keyframes ! i, keyframe_indices ! i))"
proof -
  from extract_loop_Inr [OF assms [unfolded extract_keyframes_def]]
  obtain ps where ps: "list_all2 (chosen fl gray frames sb) [0..<length sb] ps"
    and k: "keyframes = map fst ps" and ki: "keyframe_indices = map snd ps"
    by auto
  from ps have len: "length ps = length sb" by (auto dest: list_all2_lengthD)
  have "chosen fl gray frames sb i (keyframes ! i, keyframe_indices ! i)" if "i < length sb" for i
  proof -
    from that have "i < length [0..<length sb]" by simp
    with ps have "chosen fl gray frames sb ([0..<length sb] ! i) (ps ! i)"
      by (rule list_all2_nthD)
    with that len show ?thesis by (simp add: k ki)
  qed
  with len k ki show ?thesis by simp
qed














section \<open>High-resolution extraction\<close>

text \<open>
  Claim C3. When some frame number lies outside \<open>[0, total_frames)\<close>,
  \<open>extract_frames_by_numbers\<close> raises the ValueError for an invalid frame number and leaves
  the processor and the world as they were: no read was attempted on the capture, no
  directory was created and no file written. Hence, when it raises nothing, the list was
  not empty and every frame number was within range.
\<close>

theorem extract_frames_by_numbers_invalid:
  "((\<exists>fn \<in> set frame_numbers. fn < 0 \<or> fn \<ge> total_frames self) \<longrightarrow>
      extract_frames_by_numbers self frame_numbers output_folder w
        = (Some InvalidFrameNumber, self, w))
   \<and> (fst (extract_frames_by_numbers self frame_numbers output_folder w) = None \<longrightarrow>
        frame_numbers \<noteq> [] \<and> (\<forall>fn \<in> set frame_numbers. 0 \<le> fn \<and> fn < total_frames self))"
proof (intro conjI impI)
  assume bad: "\<exists>fn \<in> set frame_numbers. fn < 0 \<or> fn \<ge> total_frames self"
  then have "frame_numbers \<noteq> []" by auto
  moreover from bad have "\<exists>fn \<in> set frame_numbers. fn \<ge> total_frames self \<or> fn < 0" by blast
  ultimately show "extract_frames_by_numbers self frame_numbers output_folder w
        = (Some InvalidFrameNumber, self, w)"
    by (simp add: extract_frames_by_numbers_def)
next
  assume ok: "fst (extract_frames_by_numbers self frame_numbers output_folder w) = None"
  show "frame_numbers \<noteq> []"
  proof
    assume "frame_numbers = []"
    with ok show False by (simp add: extract_frames_by_numbers_def)
  qed
  show "\<forall>fn \<in> set frame_numbers. 0 \<le> fn \<and> fn < total_frames self"
  proof (rule ccontr)
    assume "\<not> (\<forall>fn \<in> set frame_numbers. 0 \<le> fn \<and> fn < total_frames self)"
    then have "\<exists>fn \<in> set frame_numbers. fn \<ge> total_frames self \<or> fn < 0" by force
    with ok show False by (simp add: extract_frames_by_numbers_def split: if_splits)
  qed
qed


theorem extract_frames_by_numbers_invalid_witness:
  "(\<exists>fn \<in> set [1, 3]. fn < 0 \<or> fn \<ge> total_frames demo_self)
   \<and> extract_frames_by_numbers demo_self [1, 3] ''out'' demo_world
       = (Some InvalidFrameNumber, demo_self, demo_world)
   \<and> fst (extract_frames_by_numbers demo_self [0, 2] ''out'' demo_world) = None
   \<and> list_all (\<lambda>fn. 0 \<le> fn \<and> fn < total_frames demo_self) [0, 2]"
proof -
  have bad: "\<exists>fn \<in> set [1, 3]. fn < 0 \<or> fn \<ge> total_frames demo_self"
    by (simp add: demo_self_def)
  have ok: "fst (extract_frames_by_numbers demo_self [0, 2] ''out'' demo_world) = None"
    by (simp add: extract_frames_by_numbers_def demo_self_def demo_cap_def demo_world_def
          makedirs_def py_int_def cap_read_def cap_set_pos_def imwrite_def Let_def)
  from extract_frames_by_numbers_invalid [of "[1, 3]" demo_self "''out''" demo_world] bad
  have 1: "extract_frames_by_numbers demo_self [1, 3] ''out'' demo_world
       = (Some InvalidFrameNumber, demo_self, demo_world)" by blast
  from extract_frames_by_numbers_invalid [of "[0, 2]" demo_self "''out''" demo_world] ok
  have 2: "\<forall>fn \<in> set [0, 2]. 0 \<le> fn \<and> fn < total_frames demo_self" by blast
  from 2 have "list_all (\<lambda>fn. 0 \<le> fn \<and> fn < total_frames demo_self) [0, 2]"
    by simp
  with bad 1 ok show ?thesis by blast
qed

section \<open>The low-resolution pass\<close>

lemma py_drop_all:
  assumes "k \<ge> int (length xs)"
  shows "py_drop k xs = []"
  using assms by (simp add: py_drop_def)

text \<open>
  Claim C10. When \<open>int(skip_seconds * fps)\<close> is at least the number of frames read,
  \<open>process_video\<close> raises the ValueError that no frames are left. The log holds the
  message of the reading step only, so boundary detection was not started, and the
  directories are untouched.
\<close>

theorem process_video_skip_all:
  assumes "py_int (skip_seconds * of_int (fps self)) \<ge> int (length (fst (preprocess_video self)))"
  shows "process_video fl gray self output_dir skip_seconds threshold w
           = (Some NoFramesLeft, snd (preprocess_video self), logger ReadingFrames w)
         \<and> dirs (logger ReadingFrames w) = dirs w
         \<and> messages (logger ReadingFrames w) = messages w @ [ReadingFrames]"
  using py_drop_all [OF assms]
  by (simp add: process_video_def Let_def logger_def)

lemma demo_preprocess:
  "fst (preprocess_video demo_self) = [[0, 0], [1, 1], [200, 200]]"
  by (simp add: preprocess_video_def demo_self_def demo_cap_def cap_set_pos_def cap_read_def
        Let_def split_def)

theorem process_video_skip_all_witness:
  "py_int (5 * of_int (fps demo_self)) \<ge> int (length (fst (preprocess_video demo_self)))
   \<and> fst (process_video float64_numerics id demo_self ''out'' 5 30 demo_world) = Some NoFramesLeft
   \<and> dirs (snd (snd (process_video float64_numerics id demo_self ''out'' 5 30 demo_world))) = dirs demo_world"
proof -
  have h: "py_int (5 * of_int (fps demo_self)) \<ge> int (length (fst (preprocess_video demo_self)))"
    unfolding demo_preprocess by (simp add: py_int_def demo_self_def)
  from process_video_skip_all [OF h, of float64_numerics id "''out''" 30 demo_world] h
  show ?thesis by simp
qed

lemma py_slice_nth:
  assumes "c < length (py_slice xs start end)"
  shows "start + c < length xs \<and> py_slice xs start end ! c = xs ! (start + c)"
proof -
  from assms have c: "c < end - start" "c < length xs - start"
    by (simp_all add: py_slice_def)
  then have "start + c < length xs" by simp
  moreover from c have "py_slice xs start end ! c = xs ! (start + c)"
    by (simp add: py_slice_def)
  ultimately show ?thesis by simp
qed

lemma chosen_in_range:
  assumes "chosen fl gray frames sb i (f, idx)"
  shows "idx < length frames \<and> f = frames ! idx"
proof -
  from assms obtain c where c: "center_index fl gray (shot_span frames sb i) = Inr c"
    and f: "f = shot_span frames sb i ! c" and idx: "idx = shot_start sb i + c"
    by (auto simp: chosen_def)
  from center_index_Inr [OF c] have "c < length (shot_span frames sb i)"
    by (simp add: first_minimum_def)
  then have "c < length (py_slice frames (shot_start sb i) (sb ! i))"
    by (simp add: shot_span_def)
  from py_slice_nth [OF this] f idx show ?thesis
    by (simp add: shot_span_def)
qed

lemma extract_keyframes_in_range:
  assumes "extract_keyframes fl gray frames sb = Inr (keyframes, keyframe_indices)"
  shows "length keyframes = length keyframe_indices
         \<and> (\<forall>i < length keyframe_indices.
               keyframe_indices ! i < length frames
               \<and> keyframes ! i = frames ! (keyframe_indices ! i))"
proof -
  from extract_keyframes_chosen [OF assms]
  have len: "length keyframes = length sb" "length keyframe_indices = length sb"
    and ch: "\<forall>i < length sb. chosen fl gray frames sb i (keyframes ! i, keyframe_indices ! i)"
    by simp_all
  have "keyframe_indices ! i < length frames \<and> keyframes ! i = frames ! (keyframe_indices ! i)"
    if "i < length keyframe_indices" for i
  proof -
    from that len ch have "chosen fl gray frames sb i (keyframes ! i, keyframe_indices ! i)" by simp
    then show ?thesis by (rule chosen_in_range)
  qed
  with len show ?thesis by simp
qed

lemma py_drop_nth:
  assumes "idx < length (py_drop k xs)"
  shows "int idx + k < int (length xs)"
    and "0 \<le> k \<Longrightarrow> py_drop k xs ! idx = xs ! nat (int idx + k)"
proof -
  show "int idx + k < int (length xs)"
  proof (cases "0 \<le> k")
    case True
    with assms show ?thesis by (simp add: py_drop_def)
  next
    case False
    from assms have "idx < length xs" by (simp add: py_drop_def split: if_splits)
    with False show ?thesis by simp
  qed
  show "py_drop k xs ! idx = xs ! nat (int idx + k)" if "0 \<le> k"
  proof -
    from that assms have "idx < length xs - nat k" by (simp add: py_drop_def)
    moreover from that have "nat (int idx + k) = nat k + idx" by simp
    ultimately show ?thesis using that by (simp add: py_drop_def)
  qed
qed

lemma process_video_success:
  assumes "fst (process_video fl gray self output_dir skip_seconds threshold w) = None"
  obtains sb keyframes keyframe_indices where
    "detect_shot_boundaries gray
       (py_drop (py_int (skip_seconds * of_int (fps self))) (fst (preprocess_video self)))
       threshold = Inr sb"
    and "extract_keyframes fl gray
       (py_drop (py_int (skip_seconds * of_int (fps self))) (fst (preprocess_video self)))
       sb = Inr (keyframes, keyframe_indices)"
    and "snd (snd (process_video fl gray self output_dir skip_seconds threshold w)) =
         snd (save_keyframes (snd (preprocess_video self)) keyframes
                (map (\<lambda>idx. int idx + py_int (skip_seconds * of_int (fps self))) keyframe_indices)
                output_dir
                (logger (BoundariesDetected (length sb))
                   (logger DetectingBoundaries (logger ReadingFrames w))))"
proof -
  let ?frames = "py_drop (py_int (skip_seconds * of_int (fps self))) (fst (preprocess_video self))"
  from assms have ne: "?frames \<noteq> []"
    by (auto simp: process_video_def Let_def split: if_splits)
  from assms ne obtain sb where sb: "detect_shot_boundaries gray ?frames threshold = Inr sb"
    by (cases "detect_shot_boundaries gray ?frames threshold")
       (simp_all add: process_video_def Let_def)
  from assms ne sb obtain r where r: "extract_keyframes fl gray ?frames sb = Inr r"
    by (cases "extract_keyframes fl gray ?frames sb")
       (simp_all add: process_video_def Let_def)
  obtain keyframes keyframe_indices where kk: "r = (keyframes, keyframe_indices)" by (cases r)
  have "snd (snd (process_video fl gray self output_dir skip_seconds threshold w)) =
         snd (save_keyframes (snd (preprocess_video self)) keyframes
                (map (\<lambda>idx. int idx + py_int (skip_seconds * of_int (fps self))) keyframe_indices)
                output_dir
                (logger (BoundariesDetected (length sb))
                   (logger DetectingBoundaries (logger ReadingFrames w))))"
    using ne sb r kk by (simp add: process_video_def Let_def)
  with sb r kk that show ?thesis by blast
qed

text \<open>
  Claim C9. When \<open>process_video\<close> raises nothing, what it has done to the world is the
  call of \<open>save_keyframes\<close> on the keyframes and on their indices plus \<open>skip_frames\<close>.
  Every keyframe index is a position in the truncated sequence and the keyframe is the
  frame at that position, so the saved index is at least \<open>skip_frames\<close> and less than
  the number of frames read; for a skip that is not negative, the saved index is the
  position of the keyframe among all the frames read.
\<close>

theorem process_video_saved_indices:
  assumes "fst (process_video fl gray self output_dir skip_seconds threshold w) = None"
    and "all_frames = fst (preprocess_video self)"
    and "skip_frames = py_int (skip_seconds * of_int (fps self))"
  shows "\<exists>keyframes keyframe_indices w3.
           dirs w3 = dirs w
         \<and> snd (snd (process_video fl gray self output_dir skip_seconds threshold w)) =
             snd (save_keyframes (snd (preprocess_video self)) keyframes
                    (map (\<lambda>idx. int idx + skip_frames) keyframe_indices) output_dir w3)
         \<and> length keyframes = length keyframe_indices
         \<and> (\<forall>i < length keyframe_indices.
               keyframe_indices ! i < length (py_drop skip_frames all_frames)
             \<and> keyframes ! i = py_drop skip_frames all_frames ! (keyframe_indices ! i)
             \<and> skip_frames \<le> int (keyframe_indices ! i) + skip_frames
             \<and> int (keyframe_indices ! i) + skip_frames < int (length all_frames)
             \<and> (0 \<le> skip_frames \<longrightarrow>
                  keyframes ! i = all_frames ! nat (int (keyframe_indices ! i) + skip_frames)))"
proof -
  from assms(1) obtain sb keyframes keyframe_indices where
    ex: "extract_keyframes fl gray (py_drop skip_frames all_frames) sb = Inr (keyframes, keyframe_indices)"
    and sv: "snd (snd (process_video fl gray self output_dir skip_seconds threshold w)) =
         snd (save_keyframes (snd (preprocess_video self)) keyframes
                (map (\<lambda>idx. int idx + skip_frames) keyframe_indices)
                output_dir
                (logger (BoundariesDetected (length sb))
                   (logger DetectingBoundaries (logger ReadingFrames w))))"
    unfolding assms(2,3) by (rule process_video_success)
  let ?w3 = "logger (BoundariesDetected (length sb))
                   (logger DetectingBoundaries (logger ReadingFrames w))"
  have d: "dirs ?w3 = dirs w" by (simp add: logger_def)
  from extract_keyframes_in_range [OF ex]
  have len: "length keyframes = length keyframe_indices"
    and rng: "\<forall>i < length keyframe_indices.
               keyframe_indices ! i < length (py_drop skip_frames all_frames)
               \<and> keyframes ! i = py_drop skip_frames all_frames ! (keyframe_indices ! i)"
    by simp_all
  have "\<forall>i < length keyframe_indices.
               keyframe_indices ! i < length (py_drop skip_frames all_frames)
             \<and> keyframes ! i = py_drop skip_frames all_frames ! (keyframe_indices ! i)
             \<and> skip_frames \<le> int (keyframe_indices ! i) + skip_frames
             \<and> int (keyframe_indices ! i) + skip_frames < int (length all_frames)
             \<and> (0 \<le> skip_frames \<longrightarrow>
                  keyframes ! i = all_frames ! nat (int (keyframe_indices ! i) + skip_frames))"
  proof (intro allI impI)
    fix i assume i: "i < length keyframe_indices"
    with rng have a: "keyframe_indices ! i < length (py_drop skip_frames all_frames)"
      and b: "keyframes ! i = py_drop skip_frames all_frames ! (keyframe_indices ! i)"
      by simp_all
    from py_drop_nth(1) [OF a]
    have c: "int (keyframe_indices ! i) + skip_frames < int (length all_frames)" .
    have e: "keyframes ! i = all_frames ! nat (int (keyframe_indices ! i) + skip_frames)"
      if "0 \<le> skip_frames"
      using py_drop_nth(2) [OF a that] b by simp
    from a b c e
    show "keyframe_indices ! i < length (py_drop skip_frames all_frames)
             \<and> keyframes ! i = py_drop skip_frames all_frames ! (keyframe_indices ! i)
             \<and> skip_frames \<le> int (keyframe_indices ! i) + skip_frames
             \<and> int (keyframe_indices ! i) + skip_frames < int (length all_frames)
             \<and> (0 \<le> skip_frames \<longrightarrow>
                  keyframes ! i = all_frames ! nat (int (keyframe_indices ! i) + skip_frames))"
      by simp
  qed
  with d sv len show ?thesis by blast
qed

theorem process_video_saved_indices_witness:
  "fst (process_video float64_numerics id demo_self ''out'' 1 30 demo_world) = None
   \<and> dirs (snd (snd (process_video float64_numerics id demo_self ''out'' 1 30 demo_world))) ''out''
       = Some [(''keyframe_000001_000001.jpg'', [1, 1])]
   \<and> (\<exists>keyframes keyframe_indices w3.
           dirs w3 = dirs demo_world
         \<and> snd (snd (process_video float64_numerics id demo_self ''out'' 1 30 demo_world)) =
             snd (save_keyframes (snd (preprocess_video demo_self)) keyframes
                    (map (\<lambda>idx. int idx + py_int (1 * of_int (fps demo_self))) keyframe_indices)
                    ''out'' w3)
         \<and> length keyframes = length keyframe_indices
         \<and> (\<forall>i < length keyframe_indices.
               keyframe_indices ! i
                 < length (py_drop (py_int (1 * of_int (fps demo_self)))
                            (fst (preprocess_video demo_self)))
             \<and> keyframes ! i
                 = py_drop (py_int (1 * of_int (fps demo_self)))
                     (fst (preprocess_video demo_self)) ! (keyframe_indices ! i)
             \<and> py_int (1 * of_int (fps demo_self))
                 \<le> int (keyframe_indices ! i) + py_int (1 * of_int (fps demo_self))
             \<and> int (keyframe_indices ! i) + py_int (1 * of_int (fps demo_self))
                 < int (length (fst (preprocess_video demo_self)))
             \<and> (0 \<le> py_int (1 * of_int (fps demo_self)) \<longrightarrow>
                  keyframes ! i
                    = fst (preprocess_video demo_self)
                        ! nat (int (keyframe_indices ! i) + py_int (1 * of_int (fps demo_self))))))"
proof -
  have h: "fst (process_video float64_numerics id demo_self ''out'' 1 30 demo_world) = None"
    by code_simp
  have d: "dirs (snd (snd (process_video float64_numerics id demo_self ''out'' 1 30 demo_world))) ''out''
       = Some [(''keyframe_000001_000001.jpg'', [1, 1])]"
    by code_simp
  from process_video_saved_indices [OF h refl refl] h d show ?thesis
    by blast
qed

section \<open>Use after release\<close>

lemma read_frames_closed:
  assumes "\<not> opened c"
  shows "read_frames c frames = (frames, c)"
  using assms by simp

lemma preprocess_video_closed:
  assumes "\<not> opened (cap self)"
  shows "preprocess_video self = ([], self)"
  using assms by (simp add: preprocess_video_def cap_set_pos_def)

lemma extract_frames_loop_closed:
  assumes "\<not> opened c" and "rate \<noteq> 0"
  shows "\<exists>c' w'. extract_frames_loop rate output_folder ns (c, w, {}) = (None, c', w', {})
           \<and> \<not> opened c' \<and> dirs w' = dirs w
           \<and> messages w' = messages w @ map CannotReadFrame ns"
  using assms(1)
proof (induction ns arbitrary: c w)
  case Nil
  then show ?case by simp
next
  case (Cons n ns)
  let ?c = "snd (cap_read (cap_set_pos n c))"
  let ?w = "logger (CannotReadFrame n) w"
  from Cons.prems have r: "fst (cap_read (cap_set_pos n c)) = None" and c: "\<not> opened ?c"
    by (simp_all add: cap_read_def cap_set_pos_def Let_def)
  from Cons.IH [OF c, of ?w] obtain c' w' where
    "extract_frames_loop rate output_folder ns (?c, ?w, {}) = (None, c', w', {})"
    and "\<not> opened c'" and "dirs w' = dirs ?w"
    and "messages w' = messages ?w @ map CannotReadFrame ns"
    by blast
  moreover have "dirs ?w = dirs w" by (simp add: logger_def)
  moreover have "messages ?w = messages w @ [CannotReadFrame n]" by (simp add: logger_def)
  ultimately show ?case using r assms(2) by (simp add: Let_def)
qed

text \<open>
  Claim C8, as the code has it. Releasing twice is the same as releasing once. After the
  release nothing fails explicitly on account of it: \<open>preprocess_video\<close> yields no frame
  and raises nothing, so that \<open>process_video\<close> reports that no frames are left, and
  \<open>extract_frames_by_numbers\<close>, given frame numbers within range and a frame rate other
  than zero, raises nothing and writes no file: what it adds to the log is one message
  per frame number, that the frame cannot be read, and the final count of zero frames.
\<close>

theorem release_twice_and_use_after_release:
  "del (del self) = del self
   \<and> \<not> opened (cap (del self))
   \<and> preprocess_video (del self) = ([], del self)
   \<and> process_video fl gray (del self) output_dir skip_seconds threshold w
       = (Some NoFramesLeft, del self, logger ReadingFrames w)
   \<and> (fps self \<noteq> 0 \<and> frame_numbers \<noteq> []
        \<and> (\<forall>fn \<in> set frame_numbers. 0 \<le> fn \<and> fn < total_frames self)
      \<longrightarrow> fst (extract_frames_by_numbers (del self) frame_numbers output_folder w) = None
          \<and> dirs (snd (snd (extract_frames_by_numbers (del self) frame_numbers output_folder w)))
              = dirs (makedirs output_folder w)
          \<and> messages (snd (snd (extract_frames_by_numbers (del self) frame_numbers
                                  output_folder w)))
              = messages w @ map CannotReadFrame frame_numbers @ [FramesExtracted 0])"
proof (intro conjI impI)
  show "del (del self) = del self" by (simp add: del_def cap_release_def)
  show closed: "\<not> opened (cap (del self))" by (simp add: del_def cap_release_def)
  show pre: "preprocess_video (del self) = ([], del self)"
    by (rule preprocess_video_closed [OF closed])
  show "process_video fl gray (del self) output_dir skip_seconds threshold w
       = (Some NoFramesLeft, del self, logger ReadingFrames w)"
    by (simp add: process_video_def pre py_drop_def Let_def)
next
  assume a: "fps self \<noteq> 0 \<and> frame_numbers \<noteq> []
        \<and> (\<forall>fn \<in> set frame_numbers. 0 \<le> fn \<and> fn < total_frames self)"
  have closed: "\<not> opened (cap (del self))" by (simp add: del_def cap_release_def)
  from a have rate: "fps (del self) \<noteq> 0" by (simp add: del_def)
  from a have ok: "\<not> (\<exists>fn \<in> set frame_numbers. fn \<ge> total_frames (del self) \<or> fn < 0)"
    by (auto simp: del_def)
  from extract_frames_loop_closed [OF closed rate, of output_folder frame_numbers
         "makedirs output_folder w"]
  obtain c' w' where run: "extract_frames_loop (fps (del self)) output_folder frame_numbers
        (cap (del self), makedirs output_folder w, {}) = (None, c', w', {})"
    and d: "dirs w' = dirs (makedirs output_folder w)"
    and m: "messages w' = messages (makedirs output_folder w) @ map CannotReadFrame frame_numbers"
    by blast
  from a ok run have res: "extract_frames_by_numbers (del self) frame_numbers output_folder w
      = (None, (del self)\<lparr>cap := c'\<rparr>, logger (FramesExtracted (card ({} :: int set))) w')"
    by (simp add: extract_frames_by_numbers_def)
  show "fst (extract_frames_by_numbers (del self) frame_numbers output_folder w) = None"
    by (simp add: res)
  show "dirs (snd (snd (extract_frames_by_numbers (del self) frame_numbers output_folder w)))
              = dirs (makedirs output_folder w)"
    by (simp add: res d logger_def)
  show "messages (snd (snd (extract_frames_by_numbers (del self) frame_numbers
                                  output_folder w)))
              = messages w @ map CannotReadFrame frame_numbers @ [FramesExtracted 0]"
    by (simp add: res m logger_def makedirs_def)
qed

theorem release_twice_and_use_after_release_witness:
  "fps demo_self \<noteq> 0 \<and> [0, 2] \<noteq> ([] :: int list)
   \<and> list_all (\<lambda>fn. 0 \<le> fn \<and> fn < total_frames demo_self) [0, 2]
   \<and> fst (extract_frames_by_numbers (del demo_self) [0, 2] ''out'' demo_world) = None
   \<and> dirs (snd (snd (extract_frames_by_numbers (del demo_self) [0, 2] ''out'' demo_world)))
       = dirs (makedirs ''out'' demo_world)
   \<and> messages (snd (snd (extract_frames_by_numbers (del demo_self) [0, 2] ''out'' demo_world)))
       = [CannotReadFrame 0, CannotReadFrame 2, FramesExtracted 0]"
proof -
  have h: "fps demo_self \<noteq> 0 \<and> [0, 2] \<noteq> ([] :: int list)
        \<and> (\<forall>fn \<in> set [0, 2]. 0 \<le> fn \<and> fn < total_frames demo_self)"
    by (simp add: demo_self_def)
  with release_twice_and_use_after_release [where self = demo_self and frame_numbers = "[0, 2]"
         and output_folder = "''out''" and w = demo_world]
  have "fst (extract_frames_by_numbers (del demo_self) [0, 2] ''out'' demo_world) = None
   \<and> dirs (snd (snd (extract_frames_by_numbers (del demo_self) [0, 2] ''out'' demo_world)))
       = dirs (makedirs ''out'' demo_world)
   \<and> messages (snd (snd (extract_frames_by_numbers (del demo_self) [0, 2] ''out'' demo_world)))
       = messages demo_world @ map CannotReadFrame [0, 2] @ [FramesExtracted 0]"
    by blast
  then have "fst (extract_frames_by_numbers (del demo_self) [0, 2] ''out'' demo_world) = None
   \<and> dirs (snd (snd (extract_frames_by_numbers (del demo_self) [0, 2] ''out'' demo_world)))
       = dirs (makedirs ''out'' demo_world)
   \<and> messages (snd (snd (extract_frames_by_numbers (del demo_self) [0, 2] ''out'' demo_world)))
       = [CannotReadFrame 0, CannotReadFrame 2, FramesExtracted 0]"
    by (simp add: demo_world_def)
  with h show ?thesis by simp
qed

text \<open>
  The capture of the small video holds three frames. Once released, reading it in
  sequence yields no frame, and extracting the frames 0 and 2 raises nothing and leaves
  the output directory empty.
\<close>

theorem use_after_release_silent:
  "stream (cap (del demo_self)) = [Some [0, 0], Some [1, 1], Some [200, 200]]
   \<and> fst (preprocess_video (del demo_self)) = []
   \<and> fst (extract_frames_by_numbers (del demo_self) [0, 2] ''out'' demo_world) = None
   \<and> dirs (snd (snd (extract_frames_by_numbers (del demo_self) [0, 2] ''out'' demo_world))) ''out''
       = Some []"
  by code_simp

section \<open>File names and the recovery scan\<close>

lemma digit_char_props:
  assumes "d < 10"
  shows "isdigit (digit_char d)" and "digit_value (digit_char d) = int d"
proof -
  from assms have d: "d = 0 \<or> d = 1 \<or> d = 2 \<or> d = 3 \<or> d = 4
      \<or> d = 5 \<or> d = 6 \<or> d = 7 \<or> d = 8 \<or> d = 9"
    by arith
  then show "isdigit (digit_char d)"
    by (elim disjE) (simp_all add: digit_char_def isdigit_def)
  from d show "digit_value (digit_char d) = int d"
    by (elim disjE) (simp_all add: digit_char_def digit_value_def)
qed

lemma int_of_digits_snoc:
  "int_of_digits (s @ [c]) = 10 * int_of_digits s + digit_value c"
  by (simp add: int_of_digits_def)

lemma str_nat_props:
  "str_nat n \<noteq> [] \<and> list_all isdigit (str_nat n) \<and> int_of_digits (str_nat n) = int n"
proof (induction n rule: str_nat.induct)
  case (1 n)
  show ?case
  proof (cases "n < 10")
    case True
    then have "str_nat n = [digit_char n]" by (subst str_nat.simps) simp
    with digit_char_props [OF True] show ?thesis
      by (simp add: int_of_digits_def)
  next
    case False
    then have eq: "str_nat n = str_nat (n div 10) @ [digit_char (n mod 10)]"
      by (subst str_nat.simps) simp
    have d: "n mod 10 < 10" by simp
    have a: "10 * int (n div 10) + int (n mod 10) = int n" by presburger
    from "1.IH" [OF False] digit_char_props [OF d] a show ?thesis
      unfolding eq int_of_digits_snoc by simp
  qed
qed

lemma int_of_digits_zeros:
  "int_of_digits (replicate k (CHR ''0'') @ s) = int_of_digits s"
proof -
  have "foldl (\<lambda>a c. 10 * a + digit_value c) 0 (replicate k (CHR ''0'')) = 0"
    by (induction k) (simp_all add: digit_value_def)
  then show ?thesis by (simp add: int_of_digits_def)
qed

lemma format_d_props:
  assumes "0 \<le> n"
  shows "format_d width n \<noteq> []" and "list_all isdigit (format_d width n)"
    and "int_of_digits (format_d width n) = n"
proof -
  from assms have eq: "format_d width n
      = replicate (width - length (str_nat (nat n))) (CHR ''0'') @ str_nat (nat n)"
    by (simp add: format_d_def zfill_def)
  from str_nat_props [of "nat n"] show "format_d width n \<noteq> []"
    unfolding eq by simp
  have z: "isdigit (CHR ''0'')" by (simp add: isdigit_def)
  from str_nat_props [of "nat n"] z show "list_all isdigit (format_d width n)"
    unfolding eq by (auto simp: list_all_iff)
  from str_nat_props [of "nat n"] assms show "int_of_digits (format_d width n) = n"
    unfolding eq int_of_digits_zeros by simp
qed

lemma py_mod_nonneg:
  assumes "0 < y"
  shows "0 \<le> py_mod x y"
proof -
  from floor_divide_lower [OF assms, of x] have "y * of_int \<lfloor>x / y\<rfloor> \<le> x"
    by (simp add: mult.commute)
  then show ?thesis by (simp add: py_mod_def)
qed

lemma py_int_floordiv_nonneg:
  assumes "0 \<le> x" and "0 < y"
  shows "0 \<le> py_int (py_floordiv x y)"
proof -
  from assms have "0 \<le> x / y" by simp
  then have "0 \<le> \<lfloor>x / y\<rfloor>" by simp
  then show ?thesis by (simp add: py_int_def py_floordiv_def)
qed

lemma py_int_nonneg:
  assumes "0 \<le> x"
  shows "0 \<le> py_int x"
  using assms by (simp add: py_int_def)

lemma save_time_str_props:
  assumes "0 \<le> timestamp"
  shows "save_time_str timestamp \<noteq> []" and "list_all isdigit (save_time_str timestamp)"
proof -
  have h: "0 \<le> py_int (py_floordiv timestamp 3600)"
    by (rule py_int_floordiv_nonneg [OF assms]) simp
  have m: "0 \<le> py_int (py_floordiv (py_mod timestamp 3600) 60)"
    by (rule py_int_floordiv_nonneg [OF py_mod_nonneg]) simp_all
  have s: "0 \<le> py_int (py_mod timestamp 60)"
    by (rule py_int_nonneg [OF py_mod_nonneg]) simp
  from format_d_props(1) [OF h] show "save_time_str timestamp \<noteq> []"
    by (simp add: save_time_str_def Let_def)
  from format_d_props(2) [OF h] format_d_props(2) [OF m] format_d_props(2) [OF s]
  show "list_all isdigit (save_time_str timestamp)"
    by (simp add: save_time_str_def Let_def)
qed

lemma strip_prefix_append:
  "strip_prefix p (p @ r) = Some r"
  by (induction p) simp_all

lemma span_digits:
  assumes "list_all isdigit ds" and "\<not> isdigit c"
  shows "takeWhile isdigit (ds @ c # rest) = ds" and "dropWhile isdigit (ds @ c # rest) = c # rest"
proof -
  from assms(1) have all: "\<And>x. x \<in> set ds \<Longrightarrow> isdigit x" by (simp add: list_all_iff)
  from takeWhile_append2 [of ds isdigit "c # rest", OF all] assms(2)
  show "takeWhile isdigit (ds @ c # rest) = ds" by simp
  from dropWhile_append2 [of ds isdigit "c # rest", OF all] assms(2)
  show "dropWhile isdigit (ds @ c # rest) = c # rest" by simp
qed

lemma match_at_keyframe_name:
  assumes "list_all isdigit d1" and "d1 \<noteq> []" and "list_all isdigit d2" and "d2 \<noteq> []"
  shows "match_at (''keyframe_'' @ d1 @ ''_'' @ d2 @ ''.jpg'') = Some d1"
proof -
  have u: "\<not> isdigit (CHR ''_'')" and dot: "\<not> isdigit (CHR ''.'')"
    by (simp_all add: isdigit_def)
  have p: "strip_prefix ''keyframe_'' (''keyframe_'' @ d1 @ ''_'' @ d2 @ ''.jpg'')
             = Some (d1 @ CHR ''_'' # d2 @ ''.jpg'')"
    using strip_prefix_append [of "''keyframe_''" "d1 @ CHR ''_'' # d2 @ ''.jpg''"] by simp
  have t1: "takeWhile isdigit (d1 @ CHR ''_'' # d2 @ ''.jpg'') = d1"
    and r1: "dropWhile isdigit (d1 @ CHR ''_'' # d2 @ ''.jpg'') = CHR ''_'' # d2 @ ''.jpg''"
    by (rule span_digits [OF assms(1) u])+
  have q: "strip_prefix ''_'' (CHR ''_'' # d2 @ ''.jpg'') = Some (d2 @ ''.jpg'')"
    by simp
  have t2: "takeWhile isdigit (d2 @ ''.jpg'') = d2"
    and r2: "dropWhile isdigit (d2 @ ''.jpg'') = ''.jpg''"
    using span_digits [OF assms(3) dot, of "''jpg''"] by simp_all
  show ?thesis
    unfolding match_at_def p option.case Let_def t1 r1 q t2 r2
    using assms(2,4) by simp
qed

lemma pattern_search_keyframe_name:
  assumes "0 \<le> frame_idx" and "list_all isdigit time_str" and "time_str \<noteq> []"
  shows "pattern_search (keyframe_name frame_idx time_str) = Some (format_d 6 frame_idx)"
proof -
  have m: "match_at (keyframe_name frame_idx time_str) = Some (format_d 6 frame_idx)"
    unfolding keyframe_name_def
    by (rule match_at_keyframe_name
          [OF format_d_props(2) [OF assms(1)] format_d_props(1) [OF assms(1)] assms(2,3)])
  have "keyframe_name frame_idx time_str
          = CHR ''k'' # (''eyframe_'' @ format_d 6 frame_idx @ ''_'' @ time_str @ ''.jpg'')"
    by (simp add: keyframe_name_def)
  then obtain cs where cs: "keyframe_name frame_idx time_str = CHR ''k'' # cs" ..
  from m show ?thesis unfolding cs by simp
qed

lemma endswith_keyframe_name:
  "endswith (keyframe_name frame_idx time_str) ''.jpg''"
  by (simp add: endswith_def keyframe_name_def)

text \<open>The name under which \<open>save_keyframes\<close> stores a frame index, and its reading back.\<close>

lemma scan_saved_name:
  assumes "0 \<le> frame_idx" and "0 < rate"
  shows "endswith (keyframe_name frame_idx (save_time_str (of_int frame_idx / of_int rate))) ''.jpg''"
    and "pattern_search (keyframe_name frame_idx (save_time_str (of_int frame_idx / of_int rate)))
           = Some (format_d 6 frame_idx)"
    and "int_of_digits (format_d 6 frame_idx) = frame_idx"
proof -
  from assms have ts: "(0 :: rat) \<le> of_int frame_idx / of_int rate" by simp
  show "endswith (keyframe_name frame_idx (save_time_str (of_int frame_idx / of_int rate))) ''.jpg''"
    by (rule endswith_keyframe_name)
  show "pattern_search (keyframe_name frame_idx (save_time_str (of_int frame_idx / of_int rate)))
           = Some (format_d 6 frame_idx)"
    by (rule pattern_search_keyframe_name
          [OF assms(1) save_time_str_props(2) [OF ts] save_time_str_props(1) [OF ts]])
  show "int_of_digits (format_d 6 frame_idx) = frame_idx"
    by (rule format_d_props(3) [OF assms(1)])
qed

lemma scanned_saved_name:
  assumes "0 \<le> frame_idx" and "0 < rate"
  shows "scanned_number (saved_name rate frame_idx) = frame_idx"
  using scan_saved_name(2,3) [OF assms] by (simp add: scanned_number_def saved_name_def)

lemma write_entry_names:
  "map fst (write_entry name img es)
     = (if name \<in> set (map fst es) then map fst es else map fst es @ [name])"
  by (induction es) (auto simp: rev_image_eqI)

lemma save_loop_dirs:
  assumes "rate \<noteq> 0" and "dirs w d = Some es"
  shows "fst (save_loop rate d kis w) = None
         \<and> (\<exists>es'. dirs (snd (save_loop rate d kis w)) d = Some es'
               \<and> set (map fst es') = set (map fst es) \<union> saved_name rate ` snd ` set kis
               \<and> (distinct (map fst es) \<longrightarrow> distinct (map fst es')))"
  using assms(2)
proof (induction kis arbitrary: w es)
  case Nil
  then show ?case by simp
next
  case (Cons ki kis)
  obtain keyframe frame_idx where ki: "ki = (keyframe, frame_idx)" by (cases ki)
  let ?name = "saved_name rate frame_idx"
  let ?w = "imwrite d ?name keyframe w"
  let ?es = "write_entry ?name keyframe es"
  from Cons.prems have d: "dirs ?w d = Some ?es" by (simp add: imwrite_def)
  have step: "save_loop rate d (ki # kis) w = save_loop rate d kis ?w"
    using assms(1) by (simp add: ki saved_name_def Let_def)
  from Cons.IH [OF d] obtain es' where
    r: "fst (save_loop rate d kis ?w) = None"
    and e: "dirs (snd (save_loop rate d kis ?w)) d = Some es'"
    and s: "set (map fst es') = set (map fst ?es) \<union> saved_name rate ` snd ` set kis"
    and dis: "distinct (map fst ?es) \<longrightarrow> distinct (map fst es')"
    by blast
  have s': "set (map fst es') = set (map fst es) \<union> saved_name rate ` snd ` set (ki # kis)"
    unfolding s write_entry_names by (auto simp: ki)
  have dis': "distinct (map fst es) \<longrightarrow> distinct (map fst es')"
    using dis unfolding write_entry_names by auto
  from r e s' dis' show ?case unfolding step by blast
qed

lemma numbers_loop_all:
  assumes "\<forall>f \<in> set files. pattern_search f \<noteq> None"
  shows "numbers_loop files numbers = numbers @ map scanned_number files"
  using assms
proof (induction files arbitrary: numbers)
  case Nil
  then show ?case by simp
next
  case (Cons f files)
  from Cons.prems obtain g where g: "pattern_search f = Some g" by auto
  from Cons.prems have "\<forall>f \<in> set files. pattern_search f \<noteq> None" by simp
  from Cons.IH [OF this] g show ?case by (simp add: scanned_number_def)
qed

lemma scan_of_saved_names:
  assumes "dirs w d = Some es" and "distinct (map fst es)"
    and "set (map fst es) = saved_name rate ` S" and "0 < rate" and "\<forall>i \<in> S. 0 \<le> i"
    and "finite S"
  shows "extract_numbers_from_folder d w = Inr (sorted_list_of_set S)"
proof -
  define names where "names = map fst es"
  have dn: "distinct names" and sn: "set names = saved_name rate ` S"
    using assms(2,3) by (simp_all only: names_def)
  have nm: "\<exists>i \<in> S. f = saved_name rate i" if "f \<in> set names" for f
    using that sn by auto
  have keep: "filter (\<lambda>f. endswith f ''.jpg'') names = names"
  proof (rule filter_True, rule ballI)
    fix f assume "f \<in> set names"
    from nm [OF this] show "endswith f ''.jpg''"
      by (auto simp: saved_name_def endswith_keyframe_name)
  qed
  have "\<forall>f \<in> set names. pattern_search f \<noteq> None"
  proof
    fix f assume "f \<in> set names"
    from nm [OF this] obtain i where i: "i \<in> S" and f: "f = saved_name rate i" by blast
    from i assms(5) have "0 \<le> i" by simp
    from scan_saved_name(2) [OF this assms(4)] show "pattern_search f \<noteq> None"
      by (simp add: f saved_name_def)
  qed
  then have nums: "numbers_loop names [] = map scanned_number names"
    by (simp add: numbers_loop_all)
  have rt: "scanned_number (saved_name rate i) = i" if "i \<in> S" for i
    using that assms(4,5) by (simp add: scanned_saved_name)
  have set_nums: "set (map scanned_number names) = S"
  proof -
    have "set (map scanned_number names) = scanned_number ` set names"
      by (rule set_map)
    also have "\<dots> = scanned_number ` saved_name rate ` S"
      by (simp only: sn)
    also have "\<dots> = S" using rt by force
    finally show ?thesis .
  qed
  have inj: "inj_on scanned_number (set names)"
  proof (rule inj_onI)
    fix a b assume a: "a \<in> set names" and b: "b \<in> set names"
      and eq: "scanned_number a = scanned_number b"
    from nm [OF a] obtain i where i: "i \<in> S" "a = saved_name rate i" by blast
    from nm [OF b] obtain j where j: "j \<in> S" "b = saved_name rate j" by blast
    from eq i j rt have "i = j" by simp
    with i j show "a = b" by simp
  qed
  from dn inj have dis: "distinct (map scanned_number names)"
    by (simp add: distinct_map)
  have "sorted_list_of_set S = sorted_list_of_set (set (map scanned_number names))"
    by (simp only: set_nums)
  also have "\<dots> = sort (remdups (map scanned_number names))"
    by (rule sorted_list_of_set_sort_remdups)
  also have "\<dots> = sort (map scanned_number names)"
    using dis by (simp only: distinct_remdups_id)
  finally have "sort (map scanned_number names) = sorted_list_of_set S" by simp
  then show ?thesis
    using assms(1) keep nums
    by (simp add: extract_numbers_from_folder_def Let_def names_def [symmetric])
qed

text \<open>
  Claim C2. With a positive frame rate, saving keyframes under frame indices that are
  not negative into a directory that is absent or empty raises nothing, and the scan of
  that directory returns exactly the set of the indices written, in ascending order; for
  distinct indices this is the sorted list of the indices.
\<close>

theorem save_then_scan_roundtrip:
  assumes "0 < fps self" and "\<forall>i \<in> set keyframe_indices. 0 \<le> i"
    and "length keyframes = length keyframe_indices"
    and "dirs w output_dir = None \<or> dirs w output_dir = Some []"
  shows "fst (save_keyframes self keyframes keyframe_indices output_dir w) = None
       \<and> extract_numbers_from_folder output_dir
            (snd (save_keyframes self keyframes keyframe_indices output_dir w))
           = Inr (sorted_list_of_set (set keyframe_indices))
       \<and> (distinct keyframe_indices \<longrightarrow>
            extract_numbers_from_folder output_dir
              (snd (save_keyframes self keyframes keyframe_indices output_dir w))
             = Inr (sort keyframe_indices))"
proof -
  let ?w0 = "makedirs output_dir w"
  let ?kis = "zip keyframes keyframe_indices"
  from assms(4) have d0: "dirs ?w0 output_dir = Some []"
    by (auto simp: makedirs_def)
  from assms(1) have rate: "fps self \<noteq> 0" by simp
  have "fst (save_loop (fps self) output_dir ?kis ?w0) = None
      \<and> (\<exists>es'. dirs (snd (save_loop (fps self) output_dir ?kis ?w0)) output_dir = Some es'
             \<and> set (map fst es') = saved_name (fps self) ` snd ` set ?kis
             \<and> distinct (map fst es'))"
    using save_loop_dirs [OF rate d0, of ?kis] by simp
  then obtain es' where
    ok: "fst (save_loop (fps self) output_dir ?kis ?w0) = None"
    and d: "dirs (snd (save_loop (fps self) output_dir ?kis ?w0)) output_dir = Some es'"
    and names: "set (map fst es') = saved_name (fps self) ` snd ` set ?kis"
    and dis': "distinct (map fst es')"
    by blast
  have "snd ` set ?kis = set (map snd ?kis)" by simp
  also have "\<dots> = set keyframe_indices" using assms(3) by (simp only: map_snd_zip)
  finally have img: "snd ` set ?kis = set keyframe_indices" .
  from names img have names': "set (map fst es') = saved_name (fps self) ` set keyframe_indices"
    by simp
  have scan: "extract_numbers_from_folder output_dir (snd (save_loop (fps self) output_dir ?kis ?w0))
          = Inr (sorted_list_of_set (set keyframe_indices))"
    by (rule scan_of_saved_names [OF d dis' names' assms(1,2)]) simp
  have srt: "sorted_list_of_set (set keyframe_indices) = sort keyframe_indices"
    if "distinct keyframe_indices"
    using that by (simp add: sorted_list_of_set_sort_remdups distinct_remdups_id)
  from ok scan srt show ?thesis
    by (simp add: save_keyframes_def)
qed

theorem save_then_scan_roundtrip_witness:
  "0 < fps demo_self
   \<and> list_all (\<lambda>i. 0 \<le> i) [125, 7 :: int]
   \<and> length [[0, 0], [1, 1 :: int]] = length [125, 7 :: int]
   \<and> dirs demo_world ''out'' = None
   \<and> distinct [125, 7 :: int]
   \<and> fst (save_keyframes demo_self [[0, 0], [1, 1]] [125, 7] ''out'' demo_world) = None
   \<and> extract_numbers_from_folder ''out''
        (snd (save_keyframes demo_self [[0, 0], [1, 1]] [125, 7] ''out'' demo_world))
       = Inr [7, 125]"
proof -
  have h1: "0 < fps demo_self" by (simp add: demo_self_def)
  have h2: "\<forall>i \<in> set [125, 7 :: int]. 0 \<le> i" by simp
  have h3: "length [[0, 0], [1, 1 :: int]] = length [125, 7 :: int]" by simp
  have h4: "dirs demo_world ''out'' = None" by (simp add: demo_world_def)
  then have h4b: "dirs demo_world ''out'' = None \<or> dirs demo_world ''out'' = Some []" by simp
  have h5: "distinct [125, 7 :: int]" by simp
  have h6: "sort [125, 7 :: int] = [7, 125]" by simp
  from save_then_scan_roundtrip [OF h1 h2 h3 h4b] h5 h6
  have "fst (save_keyframes demo_self [[0, 0], [1, 1]] [125, 7] ''out'' demo_world) = None
   \<and> extract_numbers_from_folder ''out''
        (snd (save_keyframes demo_self [[0, 0], [1, 1]] [125, 7] ''out'' demo_world))
       = Inr [7, 125]"
    by simp
  with h1 h3 h4 h5 show ?thesis by simp
qed

section \<open>Deduplication by whole second\<close>

lemma py_int_quotient:
  assumes "0 \<le> n" and "0 < rate"
  shows "py_int (of_int n / of_int rate) = n div rate"
proof -
  from assms have "(0 :: rat) \<le> of_int n / of_int rate" by simp
  then show ?thesis by (simp add: py_int_def floor_divide_of_int_eq)
qed

lemma kept_numbers_subset:
  "set (kept_numbers rate seen ns) \<subseteq> set ns"
  by (induction ns arbitrary: seen) auto

lemma kept_numbers_fresh:
  "k \<in> set (kept_numbers rate seen ns) \<Longrightarrow> k div rate \<notin> seen"
  by (induction ns arbitrary: seen) (auto split: if_splits)

lemma kept_numbers_distinct:
  "distinct (map (\<lambda>n. n div rate) (kept_numbers rate seen ns))"
proof (induction ns arbitrary: seen)
  case Nil
  then show ?case by simp
next
  case (Cons n ns)
  have "n div rate \<notin> (\<lambda>n. n div rate) ` set (kept_numbers rate (insert (n div rate) seen) ns)"
  proof
    assume "n div rate \<in> (\<lambda>n. n div rate) ` set (kept_numbers rate (insert (n div rate) seen) ns)"
    then obtain k where k: "k \<in> set (kept_numbers rate (insert (n div rate) seen) ns)"
      and eq: "n div rate = k div rate" by blast
    from kept_numbers_fresh [OF k] eq show False by simp
  qed
  with Cons.IH show ?case by simp
qed

lemma kept_numbers_seconds:
  "(\<lambda>n. n div rate) ` set (kept_numbers rate seen ns) \<union> seen
     = (\<lambda>n. n div rate) ` set ns \<union> seen"
proof (induction ns arbitrary: seen)
  case Nil
  then show ?case by simp
next
  case (Cons n ns)
  show ?case
  proof (cases "n div rate \<in> seen")
    case True
    with Cons.IH [of seen] show ?thesis by auto
  next
    case False
    with Cons.IH [of "insert (n div rate) seen"] show ?thesis by auto
  qed
qed

lemma kept_numbers_first:
  assumes "k \<in> set (kept_numbers rate seen ns)"
  shows "find (\<lambda>n. n div rate = k div rate) ns = Some k"
  using assms
proof (induction ns arbitrary: seen)
  case Nil
  then show ?case by simp
next
  case (Cons n ns)
  show ?case
  proof (cases "n div rate \<in> seen")
    case True
    with Cons.prems have k: "k \<in> set (kept_numbers rate seen ns)" by simp
    from kept_numbers_fresh [OF k] True have "n div rate \<noteq> k div rate" by auto
    with Cons.IH [OF k] show ?thesis by simp
  next
    case False
    with Cons.prems consider "k = n"
      | "k \<in> set (kept_numbers rate (insert (n div rate) seen) ns)" by auto
    then show ?thesis
    proof cases
      case 1
      then show ?thesis by simp
    next
      case 2
      from kept_numbers_fresh [OF 2] have "n div rate \<noteq> k div rate" by auto
      with Cons.IH [OF 2] show ?thesis by simp
    qed
  qed
qed

lemma cap_read_at:
  assumes "opened c" and "0 \<le> n" and "nat n < length (stream c)" and "stream c ! nat n = Some frame"
  shows "fst (cap_read (cap_set_pos n c)) = Some frame"
    and "opened (snd (cap_read (cap_set_pos n c)))"
    and "stream (snd (cap_read (cap_set_pos n c))) = stream c"
    and "reads (snd (cap_read (cap_set_pos n c))) = reads c @ [n]"
  using assms by (simp_all add: cap_read_def cap_set_pos_def Let_def)

lemma extract_frames_loop_decoded:
  assumes "0 < rate"
    and "\<forall>n \<in> set ns. 0 \<le> n \<and> nat n < length (stream c) \<and> stream c ! nat n \<noteq> None"
    and "opened c" and "dirs w d = Some es"
  shows "\<exists>c' w'. extract_frames_loop rate d ns (c, w, seen)
             = (None, c', w', seen \<union> (\<lambda>n. n div rate) ` set (kept_numbers rate seen ns))
           \<and> reads c' = reads c @ kept_numbers rate seen ns
           \<and> messages w' = messages w
           \<and> dirs w' = (dirs w)(d \<mapsto> foldl (archive_entry rate (stream c)) es
                                       (kept_numbers rate seen ns))"
  using assms(2,3,4)
proof (induction ns arbitrary: c w seen es)
  case Nil
  then have "(dirs w)(d \<mapsto> es) = dirs w" by (simp add: fun_upd_idem)
  then show ?case by simp
next
  case (Cons n ns)
  from Cons.prems(1) have n: "0 \<le> n" "nat n < length (stream c)" "stream c ! nat n \<noteq> None"
    and rest: "\<forall>m \<in> set ns. 0 \<le> m \<and> nat m < length (stream c) \<and> stream c ! nat m \<noteq> None"
    by simp_all
  from assms(1) have rate: "rate \<noteq> 0" by simp
  have ts: "py_int (of_int n / of_int rate) = n div rate"
    by (rule py_int_quotient [OF n(1) assms(1)])
  show ?case
  proof (cases "n div rate \<in> seen")
    case True
    from Cons.IH [OF rest Cons.prems(2,3), of seen] True rate ts show ?thesis
      by (simp add: Let_def)
  next
    case False
    from n(3) obtain frame where frame: "stream c ! nat n = Some frame" by auto
    let ?c = "snd (cap_read (cap_set_pos n c))"
    let ?name = "keyframe_name n (extract_time_str (n div rate))"
    let ?w = "imwrite d ?name frame w"
    let ?es = "write_entry ?name frame es"
    note rd = cap_read_at [OF Cons.prems(2) n(1,2) frame]
    from rest rd(3) have rest':
      "\<forall>m \<in> set ns. 0 \<le> m \<and> nat m < length (stream ?c) \<and> stream ?c ! nat m \<noteq> None"
      by simp
    from Cons.prems(3) have dw: "dirs ?w d = Some ?es" by (simp add: imwrite_def)
    have step: "extract_frames_loop rate d (n # ns) (c, w, seen)
        = extract_frames_loop rate d ns (?c, ?w, insert (n div rate) seen)"
      using False rate ts rd(1) by (simp add: Let_def)
    from Cons.IH [OF rest' rd(2) dw, of "insert (n div rate) seen"] obtain c' w' where
      run: "extract_frames_loop rate d ns (?c, ?w, insert (n div rate) seen)
             = (None, c', w', insert (n div rate) seen
                  \<union> (\<lambda>n. n div rate) ` set (kept_numbers rate (insert (n div rate) seen) ns))"
      and r: "reads c' = reads ?c @ kept_numbers rate (insert (n div rate) seen) ns"
      and m: "messages w' = messages ?w"
      and dd: "dirs w' = (dirs ?w)(d \<mapsto> foldl (archive_entry rate (stream ?c)) ?es
                                       (kept_numbers rate (insert (n div rate) seen) ns))"
      by blast
    have kept: "kept_numbers rate seen (n # ns)
                  = n # kept_numbers rate (insert (n div rate) seen) ns"
      using False by simp
    have seen': "insert (n div rate) seen
                  \<union> (\<lambda>n. n div rate) ` set (kept_numbers rate (insert (n div rate) seen) ns)
               = seen \<union> (\<lambda>n. n div rate) ` set (kept_numbers rate seen (n # ns))"
      unfolding kept by auto
    have r': "reads c' = reads c @ kept_numbers rate seen (n # ns)"
      unfolding kept r rd(4) by simp
    have m': "messages w' = messages w"
      unfolding m using Cons.prems(3) by (simp add: imwrite_def)
    have ae: "archive_entry rate (stream c) es n = ?es"
      by (simp add: archive_entry_def frame)
    have dd': "dirs w' = (dirs w)(d \<mapsto> foldl (archive_entry rate (stream c)) es
                                       (kept_numbers rate seen (n # ns)))"
      unfolding dd kept rd(3) using Cons.prems(3) by (simp add: imwrite_def ae)
    from run r' m' dd' show ?thesis unfolding step seen' by blast
  qed
qed

lemma extract_time_str_props:
  assumes "0 \<le> ts"
  shows "extract_time_str ts \<noteq> []" and "list_all isdigit (extract_time_str ts)"
proof -
  from assms have h: "0 \<le> ts div 3600" by (simp add: pos_imp_zdiv_nonneg_iff)
  have m: "0 \<le> (ts mod 3600) div 60" by (simp add: pos_imp_zdiv_nonneg_iff)
  have s: "0 \<le> ts mod 60" by simp
  from format_d_props(1) [OF h] show "extract_time_str ts \<noteq> []"
    by (simp add: extract_time_str_def Let_def)
  from format_d_props(2) [OF h] format_d_props(2) [OF m] format_d_props(2) [OF s]
  show "list_all isdigit (extract_time_str ts)"
    by (simp add: extract_time_str_def Let_def)
qed

lemma archived_name_inj:
  assumes "0 \<le> a" and "0 \<le> b" and "0 < rate"
    and "keyframe_name a (extract_time_str (a div rate)) = keyframe_name b (extract_time_str (b div rate))"
  shows "a = b"
proof -
  from assms(1,3) have ta: "0 \<le> a div rate" by (simp add: pos_imp_zdiv_nonneg_iff)
  from assms(2,3) have tb: "0 \<le> b div rate" by (simp add: pos_imp_zdiv_nonneg_iff)
  from pattern_search_keyframe_name
         [OF assms(1) extract_time_str_props(2) [OF ta] extract_time_str_props(1) [OF ta]]
       pattern_search_keyframe_name
         [OF assms(2) extract_time_str_props(2) [OF tb] extract_time_str_props(1) [OF tb]]
       assms(4)
  have "format_d 6 a = format_d 6 b" by simp
  then have "int_of_digits (format_d 6 a) = int_of_digits (format_d 6 b)" by simp
  with format_d_props(3) [OF assms(1)] format_d_props(3) [OF assms(2)] show ?thesis by simp
qed

lemma archive_entry_names:
  assumes "\<forall>n \<in> set ks. frames ! nat n \<noteq> None"
    and "distinct (map (\<lambda>n. keyframe_name n (extract_time_str (n div rate))) ks)"
    and "set (map (\<lambda>n. keyframe_name n (extract_time_str (n div rate))) ks) \<inter> set (map fst es) = {}"
  shows "map fst (foldl (archive_entry rate frames) es ks)
           = map fst es @ map (\<lambda>n. keyframe_name n (extract_time_str (n div rate))) ks"
  using assms
proof (induction ks arbitrary: es)
  case Nil
  then show ?case by simp
next
  case (Cons k ks)
  let ?nm = "\<lambda>n. keyframe_name n (extract_time_str (n div rate))"
  from Cons.prems(1) obtain frame where frame: "frames ! nat k = Some frame" by auto
  then have ae: "archive_entry rate frames es k = write_entry (?nm k) frame es"
    by (simp add: archive_entry_def)
  from Cons.prems(3) have fresh: "?nm k \<notin> set (map fst es)" by auto
  then have names: "map fst (write_entry (?nm k) frame es) = map fst es @ [?nm k]"
    by (simp only: write_entry_names if_False)
  have a: "\<forall>n \<in> set ks. frames ! nat n \<noteq> None" using Cons.prems(1) by simp
  have b: "distinct (map ?nm ks)" using Cons.prems(2) by simp
  have c: "set (map ?nm ks) \<inter> set (map fst (write_entry (?nm k) frame es)) = {}"
    unfolding names using Cons.prems(2,3) by auto
  from Cons.IH [OF a b c] show ?case
    unfolding foldl_Cons ae names by simp
qed

text \<open>
  Claim C7. With a positive frame rate, frame numbers within range and every read
  succeeding, \<open>extract_frames_by_numbers\<close> raises nothing. The frame numbers it reads and
  archives are a sublist \<open>kept\<close> of its input that holds, for every whole second
  \<open>floor(n / fps)\<close> of the input, exactly one number: the first of the input with that
  second. No other number is read, the only message logged is the final count, and in
  an output folder that was absent or empty the files are exactly those of \<open>kept\<close>.
\<close>

theorem extract_frames_by_numbers_dedup:
  assumes "0 < fps self" and "frame_numbers \<noteq> []"
    and "\<forall>fn \<in> set frame_numbers. 0 \<le> fn \<and> fn < total_frames self"
    and "opened (cap self)"
    and "\<forall>fn \<in> set frame_numbers.
           nat fn < length (stream (cap self)) \<and> stream (cap self) ! nat fn \<noteq> None"
  shows "\<exists>kept.
       fst (extract_frames_by_numbers self frame_numbers output_folder w) = None
     \<and> set kept \<subseteq> set frame_numbers
     \<and> distinct (map (\<lambda>n. n div fps self) kept)
     \<and> (\<lambda>n. n div fps self) ` set kept = (\<lambda>n. n div fps self) ` set frame_numbers
     \<and> (\<forall>k \<in> set kept.
           find (\<lambda>n. n div fps self = k div fps self) frame_numbers = Some k)
     \<and> reads (cap (fst (snd (extract_frames_by_numbers self frame_numbers output_folder w))))
         = reads (cap self) @ kept
     \<and> messages (snd (snd (extract_frames_by_numbers self frame_numbers output_folder w)))
         = messages w @ [FramesExtracted (length kept)]
     \<and> dirs (snd (snd (extract_frames_by_numbers self frame_numbers output_folder w)))
          output_folder
         = Some (foldl (archive_entry (fps self) (stream (cap self)))
                   (case dirs w output_folder of None \<Rightarrow> [] | Some es \<Rightarrow> es) kept)
     \<and> (dirs w output_folder = None \<or> dirs w output_folder = Some [] \<longrightarrow>
          map_option (map fst)
            (dirs (snd (snd (extract_frames_by_numbers self frame_numbers output_folder w)))
               output_folder)
          = Some (map (\<lambda>n. keyframe_name n (extract_time_str (n div fps self))) kept))"
proof -
  let ?rate = "fps self"
  let ?sec = "\<lambda>n. n div ?rate"
  let ?kept = "kept_numbers ?rate {} frame_numbers"
  let ?w0 = "makedirs output_folder w"
  let ?es = "case dirs w output_folder of None \<Rightarrow> [] | Some es \<Rightarrow> es"
  let ?nm = "\<lambda>n. keyframe_name n (extract_time_str (n div ?rate))"
  have d0: "dirs ?w0 output_folder = Some ?es"
    by (simp add: makedirs_def split: option.split)
  have dec: "\<forall>n \<in> set frame_numbers.
      0 \<le> n \<and> nat n < length (stream (cap self)) \<and> stream (cap self) ! nat n \<noteq> None"
    using assms(3,5) by simp
  from extract_frames_loop_decoded [OF assms(1) dec assms(4) d0, of "{}"]
  obtain c' w' where
    run: "extract_frames_loop ?rate output_folder frame_numbers (cap self, ?w0, {})
            = (None, c', w', {} \<union> ?sec ` set ?kept)"
    and r: "reads c' = reads (cap self) @ ?kept"
    and m: "messages w' = messages ?w0"
    and dd: "dirs w' = (dirs ?w0)(output_folder \<mapsto>
                foldl (archive_entry ?rate (stream (cap self))) ?es ?kept)"
    by blast
  from assms(3) have valid: "\<not> (\<exists>fn \<in> set frame_numbers. fn \<ge> total_frames self \<or> fn < 0)"
    by auto
  have res: "extract_frames_by_numbers self frame_numbers output_folder w
      = (None, self\<lparr>cap := c'\<rparr>, logger (FramesExtracted (card ({} \<union> ?sec ` set ?kept))) w')"
    using assms(2) valid run by (simp add: extract_frames_by_numbers_def)
  have dis: "distinct (map ?sec ?kept)" by (rule kept_numbers_distinct)
  then have "card (set (map ?sec ?kept)) = length (map ?sec ?kept)" by (rule distinct_card)
  then have card: "card ({} \<union> ?sec ` set ?kept) = length ?kept" by simp
  have sub: "set ?kept \<subseteq> set frame_numbers" by (rule kept_numbers_subset)
  have secs: "?sec ` set ?kept = ?sec ` set frame_numbers"
    using kept_numbers_seconds [of ?rate "{}" frame_numbers] by simp
  have first: "\<forall>k \<in> set ?kept. find (\<lambda>n. ?sec n = ?sec k) frame_numbers = Some k"
    using kept_numbers_first by blast
  have rd: "reads (cap (fst (snd (extract_frames_by_numbers self frame_numbers output_folder w))))
         = reads (cap self) @ ?kept"
    by (simp add: res r)
  have msg: "messages (snd (snd (extract_frames_by_numbers self frame_numbers output_folder w)))
         = messages w @ [FramesExtracted (length ?kept)]"
    unfolding res card by (simp add: logger_def m makedirs_def)
  have dir: "dirs (snd (snd (extract_frames_by_numbers self frame_numbers output_folder w)))
          output_folder
         = Some (foldl (archive_entry ?rate (stream (cap self))) ?es ?kept)"
    by (simp add: res logger_def dd)
  have names: "map_option (map fst)
            (dirs (snd (snd (extract_frames_by_numbers self frame_numbers output_folder w)))
               output_folder)
          = Some (map ?nm ?kept)"
    if empty: "dirs w output_folder = None \<or> dirs w output_folder = Some []"
  proof -
    from empty have es: "?es = []" by auto
    have nn: "\<forall>n \<in> set ?kept. stream (cap self) ! nat n \<noteq> None"
      using sub assms(5) by blast
    have nonneg: "0 \<le> n" if "n \<in> set ?kept" for n
      using that sub assms(3) by blast
    from dis have dk: "distinct ?kept" by (simp add: distinct_map)
    have "inj_on ?nm (set ?kept)"
    proof (rule inj_onI)
      fix a b assume "a \<in> set ?kept" "b \<in> set ?kept" "?nm a = ?nm b"
      then show "a = b"
        using archived_name_inj [OF nonneg nonneg assms(1)] by blast
    qed
    with dk have dn: "distinct (map ?nm ?kept)" by (simp add: distinct_map)
    have "map fst (foldl (archive_entry ?rate (stream (cap self))) [] ?kept)
            = map ?nm ?kept"
      using archive_entry_names [OF nn dn, of "[]"] by simp
    then show ?thesis unfolding dir es by simp
  qed
  from res sub dis secs first rd msg dir names show ?thesis
    by (intro exI [of _ ?kept]) simp
qed

theorem extract_frames_by_numbers_dedup_witness:
  "0 < fps demo_self2 \<and> [0, 1, 3] \<noteq> ([] :: int list)
   \<and> list_all (\<lambda>fn. 0 \<le> fn \<and> fn < total_frames demo_self2) [0, 1, 3]
   \<and> opened (cap demo_self2)
   \<and> list_all (\<lambda>fn. nat fn < length (stream (cap demo_self2))
                    \<and> stream (cap demo_self2) ! nat fn \<noteq> None) [0, 1, 3]
   \<and> dirs demo_world ''out'' = None
   \<and> fst (extract_frames_by_numbers demo_self2 [0, 1, 3] ''out'' demo_world) = None
   \<and> reads (cap (fst (snd (extract_frames_by_numbers demo_self2 [0, 1, 3] ''out'' demo_world))))
       = [0, 3]
   \<and> map_option (map fst)
        (dirs (snd (snd (extract_frames_by_numbers demo_self2 [0, 1, 3] ''out'' demo_world)))
           ''out'')
       = Some [''keyframe_000000_000000.jpg'', ''keyframe_000003_000001.jpg'']"
proof -
  let ?r = "extract_frames_by_numbers demo_self2 [0, 1, 3] ''out'' demo_world"
  have h1: "0 < fps demo_self2" by (simp add: demo_self2_def)
  have h2: "[0, 1, 3] \<noteq> ([] :: int list)" by simp
  have h3: "\<forall>fn \<in> set [0, 1, 3]. 0 \<le> fn \<and> fn < total_frames demo_self2"
    by (simp add: demo_self2_def)
  have h4: "opened (cap demo_self2)" by (simp add: demo_self2_def)
  have h5: "\<forall>fn \<in> set [0, 1, 3]. nat fn < length (stream (cap demo_self2))
              \<and> stream (cap demo_self2) ! nat fn \<noteq> None"
    by (simp add: demo_self2_def)
  have h6: "dirs demo_world ''out'' = None" by (simp add: demo_world_def)
  have rd: "reads (cap (fst (snd ?r))) = [0, 3]" by code_simp
  have r0: "reads (cap demo_self2) = []" by (simp add: demo_self2_def)
  from extract_frames_by_numbers_dedup [OF h1 h2 h3 h4 h5, of "''out''" demo_world]
  obtain kept where ok: "fst ?r = None"
    and k: "reads (cap (fst (snd ?r))) = reads (cap demo_self2) @ kept"
    and nm: "dirs demo_world ''out'' = None \<or> dirs demo_world ''out'' = Some [] \<longrightarrow>
          map_option (map fst) (dirs (snd (snd ?r)) ''out'')
          = Some (map (\<lambda>n. keyframe_name n (extract_time_str (n div fps demo_self2))) kept)"
    by blast
  from k rd r0 have kept: "kept = [0, 3]" by simp
  have names: "map (\<lambda>n. keyframe_name n (extract_time_str (n div fps demo_self2))) [0, 3]
      = [''keyframe_000000_000000.jpg'', ''keyframe_000003_000001.jpg'']"
    by code_simp
  from nm h6 have "map_option (map fst) (dirs (snd (snd ?r)) ''out'')
       = Some [''keyframe_000000_000000.jpg'', ''keyframe_000003_000001.jpg'']"
    unfolding kept names by simp
  moreover from h3 have "list_all (\<lambda>fn. 0 \<le> fn \<and> fn < total_frames demo_self2) [0, 1, 3]"
    by simp
  moreover from h5 have "list_all (\<lambda>fn. nat fn < length (stream (cap demo_self2))
                    \<and> stream (cap demo_self2) ! nat fn \<noteq> None) [0, 1, 3]"
    by simp
  ultimately show ?thesis using h1 h2 h4 h6 ok rd by blast
qed

section \<open>The pipeline\<close>

text \<open>Nothing before the \<open>finally\<close> block removes a directory.\<close>

lemma imwrite_keeps:
  "dirs w d \<noteq> None \<Longrightarrow> dirs (imwrite out name img w) d \<noteq> None"
  by (simp add: imwrite_def split: option.splits)

lemma save_loop_keeps:
  "dirs w d \<noteq> None \<Longrightarrow> dirs (snd (save_loop rate out kis w)) d \<noteq> None"
proof (induction kis arbitrary: w)
  case Nil
  then show ?case by simp
next
  case (Cons ki kis)
  obtain keyframe frame_idx where ki: "ki = (keyframe, frame_idx)" by (cases ki)
  show ?case
  proof (cases "rate = 0")
    case True
    with Cons.prems show ?thesis by (simp add: ki)
  next
    case False
    with Cons.IH [OF imwrite_keeps [OF Cons.prems]] show ?thesis
      by (simp add: ki Let_def)
  qed
qed

lemma makedirs_keeps:
  "dirs w d \<noteq> None \<Longrightarrow> dirs (makedirs out w) d \<noteq> None"
  by (simp add: makedirs_def)

lemma save_keyframes_keeps:
  "dirs w d \<noteq> None \<Longrightarrow> dirs (snd (save_keyframes self ks is out w)) d \<noteq> None"
  unfolding save_keyframes_def by (intro save_loop_keeps makedirs_keeps)

lemma extract_frames_loop_keeps:
  "dirs w d \<noteq> None \<Longrightarrow>
   dirs (fst (snd (snd (extract_frames_loop rate out ns (c, w, seen))))) d \<noteq> None"
proof (induction ns arbitrary: c w seen)
  case Nil
  then show ?case by simp
next
  case (Cons n ns)
  show ?case
  proof (cases "rate = 0")
    case True
    with Cons.prems show ?thesis by simp
  next
    case rate: False
    show ?thesis
    proof (cases "py_int (of_int n / of_int rate) \<in> seen")
      case True
      with rate Cons.IH [OF Cons.prems] show ?thesis by (simp add: Let_def)
    next
      case False
      show ?thesis
      proof (cases "fst (cap_read (cap_set_pos n c))")
        case None
        have "dirs (logger (CannotReadFrame n) w) d \<noteq> None"
          using Cons.prems by (simp add: logger_def)
        from Cons.IH [OF this] rate False None show ?thesis by (simp add: Let_def)
      next
        case (Some frame)
        from Cons.IH [OF imwrite_keeps [OF Cons.prems]] rate False Some show ?thesis
          by (simp add: Let_def)
      qed
    qed
  qed
qed

lemma extract_frames_by_numbers_keeps:
  assumes "dirs w d \<noteq> None"
  shows "dirs (snd (snd (extract_frames_by_numbers self ns out w))) d \<noteq> None"
proof -
  let ?x = "extract_frames_loop (fps self) out ns (cap self, makedirs out w, {})"
  from extract_frames_loop_keeps [OF makedirs_keeps [OF assms]]
  have k: "dirs (fst (snd (snd ?x))) d \<noteq> None" .
  obtain e c w' s where x: "?x = (e, c, w', s)" by (cases ?x) auto
  with k have "dirs w' d \<noteq> None" by simp
  with assms x show ?thesis
    by (cases e) (simp_all add: extract_frames_by_numbers_def logger_def)
qed

lemma process_video_keeps:
  assumes "dirs w d \<noteq> None"
  shows "dirs (snd (snd (process_video fl gray self out skip threshold w))) d \<noteq> None"
proof -
  let ?frames = "py_drop (py_int (skip * of_int (fps self))) (fst (preprocess_video self))"
  show ?thesis
  proof (cases "?frames = []")
    case True
    with assms show ?thesis by (simp add: process_video_def Let_def logger_def)
  next
    case ne: False
    show ?thesis
    proof (cases "detect_shot_boundaries gray ?frames threshold")
      case (Inl e)
      with ne assms show ?thesis by (simp add: process_video_def Let_def logger_def)
    next
      case (Inr sb)
      show ?thesis
      proof (cases "extract_keyframes fl gray ?frames sb")
        case (Inl e)
        with ne Inr assms show ?thesis by (simp add: process_video_def Let_def logger_def)
      next
        case r: (Inr kk)
        obtain ks kis where kk: "kk = (ks, kis)" by (cases kk)
        have "dirs (logger (BoundariesDetected (length sb))
                 (logger DetectingBoundaries (logger ReadingFrames w))) d \<noteq> None"
          using assms by (simp add: logger_def)
        from save_keyframes_keeps [OF this] ne Inr r kk show ?thesis
          by (simp add: process_video_def Let_def)
      qed
    qed
  qed
qed

lemma pipeline_low_res_keeps:
  assumes "dirs w d \<noteq> None"
  shows "dirs (snd (snd (snd (pipeline_low_res fl gray env self cdir mdir skip threshold cw w)))) d
           \<noteq> None"
proof (cases "ffmpeg_result env")
  case None
  with assms show ?thesis by (simp add: pipeline_low_res_def Let_def logger_def)
next
  case (Some v)
  let ?cv = "path_join cdir (splitext_root (basename (video_path self)) @ ''_compressed.mp4'')"
  let ?w2 = "logger StepLowRes
               ((logger StepCompress w)\<lparr>videos := (videos (logger StepCompress w))(?cv \<mapsto> v)\<rparr>)"
  have w2: "dirs ?w2 d \<noteq> None" using assms by (simp add: logger_def)
  show ?thesis
  proof (cases "init ?cv ?w2")
    case (Inl e)
    with Some w2 show ?thesis by (simp add: pipeline_low_res_def Let_def)
  next
    case (Inr mini)
    from process_video_keeps [OF w2] Some Inr show ?thesis
      by (simp add: pipeline_low_res_def Let_def)
  qed
qed

lemma pipeline_high_res_keeps:
  assumes "dirs w d \<noteq> None"
  shows "dirs (snd (snd (pipeline_high_res self mdir hdir w))) d \<noteq> None"
proof -
  let ?w4 = "logger StepHighRes w"
  have w4: "dirs ?w4 d \<noteq> None" using assms by (simp add: logger_def)
  show ?thesis
  proof (cases "extract_numbers_from_folder mdir ?w4")
    case (Inl e)
    with w4 show ?thesis by (simp add: pipeline_high_res_def Let_def)
  next
    case (Inr ns)
    show ?thesis
    proof (cases "ns = []")
      case True
      with Inr w4 show ?thesis by (simp add: pipeline_high_res_def Let_def)
    next
      case False
      let ?x = "extract_frames_by_numbers self ns hdir ?w4"
      from extract_frames_by_numbers_keeps [OF w4]
      have "dirs (snd (snd ?x)) d \<noteq> None" .
      with Inr False show ?thesis
        by (cases "fst ?x") (simp_all add: pipeline_high_res_def Let_def logger_def)
    qed
  qed
qed

lemma pipeline_try_keeps:
  assumes "dirs w d \<noteq> None"
  shows "dirs (snd (snd (snd (snd
           (pipeline_try fl gray env self cdir mdir hdir skip threshold cw w))))) d \<noteq> None"
proof -
  let ?l = "pipeline_low_res fl gray env self cdir mdir skip threshold cw w"
  from pipeline_low_res_keeps [OF assms] have l: "dirs (snd (snd (snd ?l))) d \<noteq> None" .
  show ?thesis
  proof (cases "fst ?l")
    case None
    with pipeline_high_res_keeps [OF l] show ?thesis
      by (simp add: pipeline_try_def Let_def)
  next
    case (Some e)
    with l show ?thesis by (simp add: pipeline_try_def Let_def)
  qed
qed

text \<open>The \<open>finally\<close> block.\<close>

lemma not_under_temp:
  "\<not> under (path_join output_dir ''temp'') output_dir"
proof -
  have ne: "a \<noteq> b" if "length a < length b" for a b :: string
    using that by auto
  have len: "length output_dir < length (path_join output_dir ''temp'')"
    by (simp add: path_join_def)
  have "length (take (length (path_join output_dir ''temp'') + 1) output_dir)
          < length (path_join output_dir ''temp'' @ ''/'')"
    using len by simp
  then have "take (length (path_join output_dir ''temp'') + 1) output_dir
               \<noteq> path_join output_dir ''temp'' @ ''/''"
    by (rule ne)
  moreover from len have "output_dir \<noteq> path_join output_dir ''temp''" by (rule ne)
  ultimately show ?thesis by (simp add: under_def)
qed

lemma rmtree_loop_outside:
  "\<not> under t p \<Longrightarrow> dirs (rmtree_loop is k t w) p = dirs w p"
  by (induction "is" arbitrary: k w) (simp_all add: rmtree_def logger_def)

lemma rmtree_loop_removes:
  assumes "k < length is" and "under t p"
  shows "dirs (rmtree_loop is k t w) p = None \<and> videos (rmtree_loop is k t w) p = None"
  using assms(1)
proof (induction "is" arbitrary: k w)
  case Nil
  then show ?case by simp
next
  case (Cons i rest)
  show ?case
  proof (cases "k = 0")
    case True
    with assms(2) show ?thesis by (simp add: rmtree_def)
  next
    case False
    with Cons.prems have "k - 1 < length rest" by simp
    from Cons.IH [OF this] False show ?thesis by simp
  qed
qed

lemma rmtree_loop_messages:
  "m \<in> set (messages w) \<Longrightarrow> m \<in> set (messages (rmtree_loop is k t w))"
  by (induction "is" arbitrary: k w) (simp_all add: rmtree_def logger_def)

lemma finally_released:
  "\<not> opened (cap (fst (pipeline_finally env self mini cv t keep w)))"
  "fst (snd (pipeline_finally env self mini cv t keep w)) = Some m \<Longrightarrow> \<not> opened (cap m)"
  "reads (cap (fst (pipeline_finally env self mini cv t keep w))) = reads (cap self)"
  by (cases keep; cases mini; auto simp: pipeline_finally_def Let_def cap_release_def)+

lemma remove_compressed_video_dirs:
  "dirs (remove_compressed_video env cv w) = dirs w"
  by (simp add: remove_compressed_video_def logger_def split: option.split)

lemma remove_compressed_video_messages:
  "m \<in> set (messages w) \<Longrightarrow> m \<in> set (messages (remove_compressed_video env cv w))"
  by (simp add: remove_compressed_video_def logger_def split: option.split)

lemma finally_outside:
  assumes "\<not> under t p"
  shows "dirs (snd (snd (pipeline_finally env self mini cv t keep w))) p = dirs w p"
proof (cases keep)
  case True
  then show ?thesis by (simp add: pipeline_finally_def Let_def)
next
  case False
  have "dirs (remove_temp_dir env t (remove_compressed_video env cv w)) p
          = dirs (remove_compressed_video env cv w) p"
    by (simp add: remove_temp_dir_def rmtree_loop_outside [OF assms])
  with False show ?thesis
    by (simp add: pipeline_finally_def Let_def logger_def remove_compressed_video_dirs)
qed

lemma finally_removes:
  assumes "\<not> keep" and "rmtree_failures env < max_retries" and "dirs w t \<noteq> None"
    and "under t p"
  shows "dirs (snd (snd (pipeline_finally env self mini cv t keep w))) p = None
         \<and> videos (snd (snd (pipeline_finally env self mini cv t keep w))) p = None"
proof -
  let ?w1 = "remove_compressed_video env cv w"
  from assms(3) have d: "dirs ?w1 t \<noteq> None" by (simp add: remove_compressed_video_dirs)
  from assms(2) have "rmtree_failures env < length [0..<max_retries]" by simp
  from rmtree_loop_removes [OF this assms(4), of ?w1] d
  have "dirs (remove_temp_dir env t ?w1) p = None \<and> videos (remove_temp_dir env t ?w1) p = None"
    by (auto simp: remove_temp_dir_def)
  with assms(1) show ?thesis
    by (simp add: pipeline_finally_def Let_def logger_def)
qed

lemma finally_keep:
  "keep \<Longrightarrow> snd (snd (pipeline_finally env self mini cv t keep w)) = w"
  by (simp add: pipeline_finally_def Let_def)

lemma finally_messages:
  assumes "m \<in> set (messages w)"
  shows "m \<in> set (messages (snd (snd (pipeline_finally env self mini cv t keep w))))"
proof (cases keep)
  case True
  with assms show ?thesis by (simp add: pipeline_finally_def Let_def)
next
  case False
  from remove_compressed_video_messages [OF assms]
  have "m \<in> set (messages (remove_temp_dir env t (remove_compressed_video env cv w)))"
    by (simp add: remove_temp_dir_def rmtree_loop_messages)
  with False show ?thesis
    by (simp add: pipeline_finally_def Let_def logger_def)
qed

lemma makedirs_exists:
  "dirs (makedirs d w) d \<noteq> None"
  by (simp add: makedirs_def)

lemma pipeline_unfold:
  assumes "temp_dir = path_join output_dir ''temp''"
    and "compressed_dir = path_join temp_dir ''compressed''"
    and "mini_frames_dir = path_join temp_dir ''mini_frames''"
    and "w0 = makedirs output_dir (makedirs mini_frames_dir (makedirs compressed_dir
                 (makedirs temp_dir (makedirs output_dir w))))"
    and "t = pipeline_try fl gray env self compressed_dir mini_frames_dir output_dir
               skip_seconds threshold compressed_width w0"
    and "wt = (case fst t of
                 Some e \<Rightarrow> logger ProcessingFailed (snd (snd (snd (snd t))))
               | None \<Rightarrow> snd (snd (snd (snd t))))"
  shows "process_video_pipeline fl gray env self output_dir skip_seconds threshold
           compressed_width keep_temp w
         = (fst t,
            pipeline_finally env (fst (snd t)) (fst (snd (snd t))) (fst (snd (snd (snd t))))
              temp_dir keep_temp wt)"
  unfolding assms process_video_pipeline_def Let_def by simp

lemma rmtree_loop_videos_None:
  "videos w p = None \<Longrightarrow> videos (rmtree_loop is k t w) p = None"
  by (induction "is" arbitrary: k w) (simp_all add: rmtree_def logger_def)

lemma rmtree_loop_stuck:
  assumes "length is \<le> k"
  shows "dirs (rmtree_loop is k t w) = dirs w \<and> videos (rmtree_loop is k t w) = videos w
         \<and> (max_retries - 1 \<in> set is \<longrightarrow> CleanupFailed \<in> set (messages (rmtree_loop is k t w)))"
  using assms
proof (induction "is" arbitrary: k w)
  case Nil
  then show ?case by simp
next
  case (Cons i rest)
  from Cons.prems have k: "k \<noteq> 0" and rest: "length rest \<le> k - 1" by simp_all
  show ?case
  proof (cases "i = max_retries - 1")
    case True
    let ?w = "logger CleanupFailed w"
    have run: "rmtree_loop (i # rest) k t w = rmtree_loop rest (k - 1) t ?w"
      using k True by simp
    have "CleanupFailed \<in> set (messages ?w)" by (simp add: logger_def)
    then have "CleanupFailed \<in> set (messages (rmtree_loop rest (k - 1) t ?w))"
      by (rule rmtree_loop_messages)
    with Cons.IH [OF rest, of ?w] show ?thesis
      unfolding run by (simp add: logger_def)
  next
    case False
    have run: "rmtree_loop (i # rest) k t w = rmtree_loop rest (k - 1) t w"
      using k False by simp
    from Cons.IH [OF rest, of w] False show ?thesis
      unfolding run by simp
  qed
qed

lemma finally_compressed_removed:
  assumes "\<not> keep" and "\<not> remove_raises env"
  shows "videos (snd (snd (pipeline_finally env self mini (Some p) t keep w))) p = None"
proof -
  let ?w1 = "remove_compressed_video env (Some p) w"
  from assms(2) have "videos ?w1 p = None" by (simp add: remove_compressed_video_def)
  then have "videos (remove_temp_dir env t ?w1) p = None"
    by (simp add: remove_temp_dir_def rmtree_loop_videos_None)
  with assms(1) show ?thesis by (simp add: pipeline_finally_def Let_def logger_def)
qed

lemma finally_stuck:
  assumes "\<not> keep" and "max_retries \<le> rmtree_failures env" and "dirs w t \<noteq> None"
  shows "dirs (snd (snd (pipeline_finally env self mini cv t keep w))) = dirs w"
    and "CleanupFailed \<in> set (messages (snd (snd (pipeline_finally env self mini cv t keep w))))"
    and "cv \<noteq> Some p \<Longrightarrow>
           videos (snd (snd (pipeline_finally env self mini cv t keep w))) p = videos w p"
    and "remove_raises env \<Longrightarrow>
           videos (snd (snd (pipeline_finally env self mini cv t keep w))) = videos w"
proof -
  let ?w1 = "remove_compressed_video env cv w"
  let ?w2 = "rmtree_loop [0..<max_retries] (rmtree_failures env) t ?w1"
  from assms(3) have d: "dirs ?w1 t \<noteq> None" by (simp add: remove_compressed_video_dirs)
  then have rt: "remove_temp_dir env t ?w1 = ?w2" by (auto simp: remove_temp_dir_def)
  from assms(2) have "length [0..<max_retries] \<le> rmtree_failures env" by simp
  from rmtree_loop_stuck [OF this, of t ?w1]
  have s: "dirs ?w2 = dirs ?w1" "videos ?w2 = videos ?w1" "CleanupFailed \<in> set (messages ?w2)"
    by (simp_all add: max_retries_def)
  from assms(1) have f: "snd (snd (pipeline_finally env self mini cv t keep w))
      = logger TempCleaned ?w2"
    by (simp add: pipeline_finally_def Let_def rt)
  show "dirs (snd (snd (pipeline_finally env self mini cv t keep w))) = dirs w"
    unfolding f by (simp add: logger_def s remove_compressed_video_dirs)
  show "CleanupFailed \<in> set (messages (snd (snd (pipeline_finally env self mini cv t keep w))))"
    unfolding f using s(3) by (simp add: logger_def)
  show "videos (snd (snd (pipeline_finally env self mini cv t keep w))) p = videos w p"
    if "cv \<noteq> Some p"
  proof -
    have "videos (logger TempCleaned ?w2) p = videos ?w1 p"
      using s(2) by (simp add: logger_def)
    also from that have "\<dots> = videos w p"
      by (auto simp: remove_compressed_video_def logger_def split: option.split)
    finally show ?thesis unfolding f .
  qed
  show "videos (snd (snd (pipeline_finally env self mini cv t keep w))) = videos w"
    if "remove_raises env"
  proof -
    have "videos (logger TempCleaned ?w2) = videos ?w1"
      using s(2) by (simp add: logger_def)
    also from that have "\<dots> = videos w"
      by (auto simp: remove_compressed_video_def logger_def split: option.split)
    finally show ?thesis unfolding f .
  qed
qed

lemma finally_remove_failed:
  assumes "\<not> keep" and "remove_raises env" and "videos w p \<noteq> None"
  shows "RemoveCompressedFailed
           \<in> set (messages (snd (snd (pipeline_finally env self mini (Some p) t keep w))))"
proof -
  let ?w1 = "remove_compressed_video env (Some p) w"
  from assms(2,3) have "RemoveCompressedFailed \<in> set (messages ?w1)"
    by (auto simp: remove_compressed_video_def logger_def)
  then have "RemoveCompressedFailed \<in> set (messages (remove_temp_dir env t ?w1))"
    by (simp add: remove_temp_dir_def rmtree_loop_messages)
  with assms(1) show ?thesis by (simp add: pipeline_finally_def Let_def logger_def)
qed

text \<open>
  Claim C4. The exception that the pipeline raises is the one that its \<open>try\<close> block
  raises, if any. When the low-resolution part raises nothing and the scan of the
  mini-frames directory returns no frame number, this is the ValueError that no
  keyframe was found; then the capture of the original video has not been read and the
  output directory holds what it held after the low-resolution part. Whatever the
  \<open>try\<close> block did, afterwards the capture of \<open>self\<close> and the capture of the mini
  processor, if there is one, are released, and an exception has been logged as a
  failure. When the temporary files are to be kept, the directories and the videos are
  those that the \<open>try\<close> block left. Otherwise the cleaning is done:
  \<^item> the compressed video is gone, unless removing it raises, which is logged as a
    warning;
  \<^item> when one of the three attempts at removing the temporary directory succeeds, no
    directory and no video remains under it;
  \<^item> when the three attempts fail, a warning is logged, the directories are those that
    the \<open>try\<close> block left, and so are the videos other than the compressed one.
\<close>

theorem pipeline_cleanup_and_reraise:
  assumes "temp_dir = path_join output_dir ''temp''"
    and "compressed_dir = path_join temp_dir ''compressed''"
    and "mini_frames_dir = path_join temp_dir ''mini_frames''"
    and "w0 = makedirs output_dir (makedirs mini_frames_dir (makedirs compressed_dir
                 (makedirs temp_dir (makedirs output_dir w))))"
    and "l = pipeline_low_res fl gray env self compressed_dir mini_frames_dir
               skip_seconds threshold compressed_width w0"
    and "t = pipeline_try fl gray env self compressed_dir mini_frames_dir output_dir
               skip_seconds threshold compressed_width w0"
    and "r = process_video_pipeline fl gray env self output_dir skip_seconds threshold
               compressed_width keep_temp w"
  shows "fst r = fst t
     \<and> (fst l = None
          \<and> extract_numbers_from_folder mini_frames_dir (logger StepHighRes (snd (snd (snd l))))
              = Inr []
        \<longrightarrow> fst r = Some NoKeyframesFound
            \<and> reads (cap (fst (snd r))) = reads (cap self)
            \<and> dirs (snd (snd (snd r))) output_dir = dirs (snd (snd (snd l))) output_dir)
     \<and> \<not> opened (cap (fst (snd r)))
     \<and> (\<forall>m. fst (snd (snd r)) = Some m \<longrightarrow> \<not> opened (cap m))
     \<and> (fst t \<noteq> None \<longrightarrow> ProcessingFailed \<in> set (messages (snd (snd (snd r)))))
     \<and> (\<not> keep_temp \<longrightarrow> TempCleaned \<in> set (messages (snd (snd (snd r)))))
     \<and> (\<not> keep_temp \<and> rmtree_failures env < 3 \<longrightarrow>
          (\<forall>p. under temp_dir p \<longrightarrow>
                 dirs (snd (snd (snd r))) p = None \<and> videos (snd (snd (snd r))) p = None))
     \<and> (keep_temp \<longrightarrow>
          dirs (snd (snd (snd r))) = dirs (snd (snd (snd (snd t))))
          \<and> videos (snd (snd (snd r))) = videos (snd (snd (snd (snd t)))))
     \<and> (\<not> keep_temp \<and> \<not> remove_raises env \<longrightarrow>
          (\<forall>p. fst (snd (snd (snd t))) = Some p \<longrightarrow> videos (snd (snd (snd r))) p = None))
     \<and> (\<not> keep_temp \<and> remove_raises env \<longrightarrow>
          (\<forall>p. fst (snd (snd (snd t))) = Some p \<and> videos (snd (snd (snd (snd t)))) p \<noteq> None
                \<longrightarrow> RemoveCompressedFailed \<in> set (messages (snd (snd (snd r))))))
     \<and> (\<not> keep_temp \<and> 3 \<le> rmtree_failures env \<longrightarrow>
          CleanupFailed \<in> set (messages (snd (snd (snd r))))
          \<and> dirs (snd (snd (snd r))) = dirs (snd (snd (snd (snd t))))
          \<and> (\<forall>p. fst (snd (snd (snd t))) \<noteq> Some p \<longrightarrow>
                 videos (snd (snd (snd r))) p = videos (snd (snd (snd (snd t)))) p)
          \<and> (remove_raises env \<longrightarrow>
                videos (snd (snd (snd r))) = videos (snd (snd (snd (snd t))))))"
proof -
  define wt where "wt = (case fst t of
                 Some e \<Rightarrow> logger ProcessingFailed (snd (snd (snd (snd t))))
               | None \<Rightarrow> snd (snd (snd (snd t))))"
  let ?f = "pipeline_finally env (fst (snd t)) (fst (snd (snd t))) (fst (snd (snd (snd t))))
              temp_dir keep_temp wt"
  have r: "r = (fst t, ?f)"
    unfolding assms(7) by (rule pipeline_unfold [OF assms(1,2,3,4,6) wt_def])
  have c1: "fst r = fst t" by (simp add: r)
  have c3: "\<not> opened (cap (fst (snd r)))" by (simp add: r finally_released(1))
  have c4: "\<forall>m. fst (snd (snd r)) = Some m \<longrightarrow> \<not> opened (cap m)"
    by (simp add: r finally_released(2))
  have c5: "fst t \<noteq> None \<longrightarrow> ProcessingFailed \<in> set (messages (snd (snd (snd r))))"
  proof
    assume "fst t \<noteq> None"
    then have "ProcessingFailed \<in> set (messages wt)" by (auto simp: wt_def logger_def)
    from finally_messages [OF this] show "ProcessingFailed \<in> set (messages (snd (snd (snd r))))"
      by (simp add: r)
  qed
  have c6: "\<not> keep_temp \<longrightarrow> TempCleaned \<in> set (messages (snd (snd (snd r))))"
    by (simp add: r pipeline_finally_def Let_def logger_def)
  have "dirs w0 temp_dir \<noteq> None"
    unfolding assms(4) by (intro makedirs_keeps makedirs_exists)
  then have "dirs (snd (snd (snd (snd t)))) temp_dir \<noteq> None"
    unfolding assms(6) by (rule pipeline_try_keeps)
  then have wd: "dirs wt temp_dir \<noteq> None"
    by (simp add: wt_def logger_def split: option.split)
  have dw: "dirs wt = dirs (snd (snd (snd (snd t))))"
    and vw: "videos wt = videos (snd (snd (snd (snd t))))"
    by (simp_all add: wt_def logger_def split: option.split)
  have c8: "keep_temp \<longrightarrow>
          dirs (snd (snd (snd r))) = dirs (snd (snd (snd (snd t))))
          \<and> videos (snd (snd (snd r))) = videos (snd (snd (snd (snd t))))"
    by (simp add: r finally_keep dw vw)
  have c9: "\<not> keep_temp \<and> \<not> remove_raises env \<longrightarrow>
          (\<forall>p. fst (snd (snd (snd t))) = Some p \<longrightarrow> videos (snd (snd (snd r))) p = None)"
  proof (intro impI allI)
    fix p assume a: "\<not> keep_temp \<and> \<not> remove_raises env"
      and cv: "fst (snd (snd (snd t))) = Some p"
    from a have nk: "\<not> keep_temp" and nr: "\<not> remove_raises env" by simp_all
    have "videos (snd (snd (pipeline_finally env (fst (snd t)) (fst (snd (snd t))) (Some p)
                    temp_dir keep_temp wt))) p = None"
      by (rule finally_compressed_removed [OF nk nr])
    then show "videos (snd (snd (snd r))) p = None" by (simp add: r cv)
  qed
  have c10: "\<not> keep_temp \<and> remove_raises env \<longrightarrow>
          (\<forall>p. fst (snd (snd (snd t))) = Some p \<and> videos (snd (snd (snd (snd t)))) p \<noteq> None
                \<longrightarrow> RemoveCompressedFailed \<in> set (messages (snd (snd (snd r)))))"
  proof (intro impI allI)
    fix p assume a: "\<not> keep_temp \<and> remove_raises env"
      and b: "fst (snd (snd (snd t))) = Some p \<and> videos (snd (snd (snd (snd t)))) p \<noteq> None"
    from a have nk: "\<not> keep_temp" and rr: "remove_raises env" by simp_all
    from b have cv: "fst (snd (snd (snd t))) = Some p" and ex: "videos wt p \<noteq> None"
      by (simp_all add: vw)
    have "RemoveCompressedFailed
           \<in> set (messages (snd (snd (pipeline_finally env (fst (snd t)) (fst (snd (snd t)))
                    (Some p) temp_dir keep_temp wt))))"
      by (rule finally_remove_failed [OF nk rr ex])
    then show "RemoveCompressedFailed \<in> set (messages (snd (snd (snd r))))"
      by (simp add: r cv)
  qed
  have c11: "\<not> keep_temp \<and> 3 \<le> rmtree_failures env \<longrightarrow>
          CleanupFailed \<in> set (messages (snd (snd (snd r))))
          \<and> dirs (snd (snd (snd r))) = dirs (snd (snd (snd (snd t))))
          \<and> (\<forall>p. fst (snd (snd (snd t))) \<noteq> Some p \<longrightarrow>
                 videos (snd (snd (snd r))) p = videos (snd (snd (snd (snd t)))) p)
          \<and> (remove_raises env \<longrightarrow>
                videos (snd (snd (snd r))) = videos (snd (snd (snd (snd t)))))"
  proof
    assume a: "\<not> keep_temp \<and> 3 \<le> rmtree_failures env"
    then have nk: "\<not> keep_temp" and st: "max_retries \<le> rmtree_failures env"
      by (simp_all add: max_retries_def)
    note fs = finally_stuck [OF nk st wd, where self = "fst (snd t)"
                and mini = "fst (snd (snd t))" and cv = "fst (snd (snd (snd t)))"]
    from fs(2) have m: "CleanupFailed \<in> set (messages (snd (snd (snd r))))" by (simp add: r)
    from fs(1) have d: "dirs (snd (snd (snd r))) = dirs (snd (snd (snd (snd t))))"
      by (simp add: r dw)
    from fs(3) have v: "\<forall>p. fst (snd (snd (snd t))) \<noteq> Some p \<longrightarrow>
                 videos (snd (snd (snd r))) p = videos (snd (snd (snd (snd t)))) p"
      by (simp add: r vw)
    from fs(4) have vr: "remove_raises env \<longrightarrow>
                videos (snd (snd (snd r))) = videos (snd (snd (snd (snd t))))"
      by (simp add: r vw)
    from m d v vr show "CleanupFailed \<in> set (messages (snd (snd (snd r))))
          \<and> dirs (snd (snd (snd r))) = dirs (snd (snd (snd (snd t))))
          \<and> (\<forall>p. fst (snd (snd (snd t))) \<noteq> Some p \<longrightarrow>
                 videos (snd (snd (snd r))) p = videos (snd (snd (snd (snd t)))) p)
          \<and> (remove_raises env \<longrightarrow>
                videos (snd (snd (snd r))) = videos (snd (snd (snd (snd t)))))"
      by blast
  qed
  have c7: "\<not> keep_temp \<and> rmtree_failures env < 3 \<longrightarrow>
          (\<forall>p. under temp_dir p \<longrightarrow>
                 dirs (snd (snd (snd r))) p = None \<and> videos (snd (snd (snd r))) p = None)"
  proof (intro impI allI)
    fix p assume a: "\<not> keep_temp \<and> rmtree_failures env < 3" and u: "under temp_dir p"
    from a have nk: "\<not> keep_temp" and rf: "rmtree_failures env < max_retries"
      by (simp_all add: max_retries_def)
    have "dirs (snd (snd ?f)) p = None \<and> videos (snd (snd ?f)) p = None"
      by (rule finally_removes [OF nk rf wd u])
    then show "dirs (snd (snd (snd r))) p = None \<and> videos (snd (snd (snd r))) p = None"
      by (simp add: r)
  qed
  have c2: "fst l = None
          \<and> extract_numbers_from_folder mini_frames_dir (logger StepHighRes (snd (snd (snd l))))
              = Inr []
        \<longrightarrow> fst r = Some NoKeyframesFound
            \<and> reads (cap (fst (snd r))) = reads (cap self)
            \<and> dirs (snd (snd (snd r))) output_dir = dirs (snd (snd (snd l))) output_dir"
  proof
    assume a: "fst l = None
          \<and> extract_numbers_from_folder mini_frames_dir (logger StepHighRes (snd (snd (snd l))))
              = Inr []"
    then have h: "pipeline_high_res self mini_frames_dir output_dir (snd (snd (snd l)))
        = (Some NoKeyframesFound, self, logger StepHighRes (snd (snd (snd l))))"
      by (simp add: pipeline_high_res_def Let_def)
    from a have t: "t = (Some NoKeyframesFound, self, fst (snd l), fst (snd (snd l)),
                          logger StepHighRes (snd (snd (snd l))))"
      unfolding assms(6) pipeline_try_def Let_def assms(5) [symmetric] h by simp
    then have wt: "wt = logger ProcessingFailed (logger StepHighRes (snd (snd (snd l))))"
      by (simp add: wt_def)
    have e: "fst r = Some NoKeyframesFound" by (simp add: r t)
    have rd: "reads (cap (fst (snd r))) = reads (cap self)"
      by (simp add: r finally_released(3)) (simp add: t)
    have nu: "\<not> under temp_dir output_dir"
      unfolding assms(1) by (rule not_under_temp)
    have "dirs (snd (snd (snd r))) output_dir = dirs wt output_dir"
      by (simp add: r finally_outside [OF nu])
    also have "\<dots> = dirs (snd (snd (snd l))) output_dir"
      by (simp add: wt logger_def)
    finally show "fst r = Some NoKeyframesFound
            \<and> reads (cap (fst (snd r))) = reads (cap self)
            \<and> dirs (snd (snd (snd r))) output_dir = dirs (snd (snd (snd l))) output_dir"
      using e rd by simp
  qed
  from c1 c2 c3 c4 c5 c6 c7 c8 c9 c10 c11 show ?thesis by blast
qed

theorem pipeline_cleanup_and_reraise_witness:
  "fst demo_low = None
   \<and> extract_numbers_from_folder ''out/temp/mini_frames''
        (logger StepHighRes (snd (snd (snd demo_low)))) = Inr []
   \<and> rmtree_failures demo_env < 3
   \<and> under ''out/temp'' ''out/temp/compressed/demo_compressed.mp4''
   \<and> fst (snd (snd demo_low)) = Some ''out/temp/compressed/demo_compressed.mp4''
   \<and> videos (snd (snd (snd demo_low))) ''out/temp/compressed/demo_compressed.mp4'' \<noteq> None
   \<and> fst (snd (snd demo_run)) \<noteq> None
   \<and> fst demo_run = Some NoKeyframesFound
   \<and> reads (cap (fst (snd demo_run))) = reads (cap demo_self)
   \<and> dirs (snd (snd (snd demo_run))) ''out'' = dirs (snd (snd (snd demo_low))) ''out''
   \<and> \<not> opened (cap (fst (snd demo_run)))
   \<and> \<not> opened (cap (the (fst (snd (snd demo_run)))))
   \<and> ProcessingFailed \<in> set (messages (snd (snd (snd demo_run))))
   \<and> TempCleaned \<in> set (messages (snd (snd (snd demo_run))))
   \<and> dirs (snd (snd (snd demo_run))) ''out/temp'' = None
   \<and> videos (snd (snd (snd demo_run))) ''out/temp/compressed/demo_compressed.mp4'' = None
   \<and> fst demo_run_keep = Some NoKeyframesFound
   \<and> dirs (snd (snd (snd demo_run_keep))) ''out/temp/mini_frames'' = Some []
   \<and> videos (snd (snd (snd demo_run_keep))) ''out/temp/compressed/demo_compressed.mp4'' \<noteq> None
   \<and> \<not> remove_raises demo_env_stuck \<and> 3 \<le> rmtree_failures demo_env_stuck
   \<and> fst (snd (snd (snd demo_try_stuck))) = Some ''out/temp/compressed/demo_compressed.mp4''
   \<and> fst demo_run_stuck = Some NoKeyframesFound
   \<and> videos (snd (snd (snd demo_run_stuck))) ''out/temp/compressed/demo_compressed.mp4'' = None
   \<and> dirs (snd (snd (snd demo_run_stuck))) ''out/temp'' = Some []
   \<and> CleanupFailed \<in> set (messages (snd (snd (snd demo_run_stuck))))
   \<and> remove_raises demo_env_locked \<and> 3 \<le> rmtree_failures demo_env_locked
   \<and> videos (snd (snd (snd (snd demo_try_locked)))) ''out/temp/compressed/demo_compressed.mp4''
        \<noteq> None
   \<and> RemoveCompressedFailed \<in> set (messages (snd (snd (snd demo_run_locked))))
   \<and> CleanupFailed \<in> set (messages (snd (snd (snd demo_run_locked))))
   \<and> videos (snd (snd (snd demo_run_locked))) ''out/temp/compressed/demo_compressed.mp4''
        \<noteq> None"
proof -
  let ?cv = "''out/temp/compressed/demo_compressed.mp4''"
  have h1: "fst demo_low = None" by code_simp
  have h2: "extract_numbers_from_folder ''out/temp/mini_frames''
        (logger StepHighRes (snd (snd (snd demo_low)))) = Inr []" by code_simp
  have h3: "rmtree_failures demo_env < 3" by code_simp
  have h4: "under ''out/temp'' ?cv" by code_simp
  have h5: "fst (snd (snd demo_low)) = Some ?cv" by code_simp
  have h6: "videos (snd (snd (snd demo_low))) ?cv \<noteq> None" by code_simp
  have h7: "fst (snd (snd demo_run)) \<noteq> None" by code_simp
  have h8: "under ''out/temp'' ''out/temp''" by code_simp
  have p1: "''out/temp'' = path_join ''out'' ''temp''" by code_simp
  have p2: "''out/temp/compressed'' = path_join ''out/temp'' ''compressed''" by code_simp
  have p3: "''out/temp/mini_frames'' = path_join ''out/temp'' ''mini_frames''" by code_simp
  note t = pipeline_cleanup_and_reraise [OF p1 p2 p3 refl demo_low_def demo_try_def demo_run_def]
  from t h1 h2 have a: "fst demo_run = Some NoKeyframesFound
       \<and> reads (cap (fst (snd demo_run))) = reads (cap demo_self)
       \<and> dirs (snd (snd (snd demo_run))) ''out'' = dirs (snd (snd (snd demo_low))) ''out''"
    by blast
  from t have b: "\<not> opened (cap (fst (snd demo_run)))" by blast
  from h7 obtain m where m: "fst (snd (snd demo_run)) = Some m" by blast
  with t have "\<not> opened (cap m)" by blast
  with m have c: "\<not> opened (cap (the (fst (snd (snd demo_run)))))" by simp
  from t have "fst demo_run = fst demo_try" by blast
  with a have "fst demo_try = Some NoKeyframesFound" by metis
  then have tf: "fst demo_try \<noteq> None" by (metis option.distinct(1))
  with t have d: "ProcessingFailed \<in> set (messages (snd (snd (snd demo_run))))" by blast
  from t have e: "TempCleaned \<in> set (messages (snd (snd (snd demo_run))))" by blast
  from t h3 have f: "\<forall>p. under ''out/temp'' p \<longrightarrow>
                 dirs (snd (snd (snd demo_run))) p = None
               \<and> videos (snd (snd (snd demo_run))) p = None" by blast
  from f h8 have g1: "dirs (snd (snd (snd demo_run))) ''out/temp'' = None" by blast
  from f h4 have g2: "videos (snd (snd (snd demo_run))) ?cv = None" by blast
  have first: "fst demo_low = None
   \<and> extract_numbers_from_folder ''out/temp/mini_frames''
        (logger StepHighRes (snd (snd (snd demo_low)))) = Inr []
   \<and> rmtree_failures demo_env < 3
   \<and> under ''out/temp'' ?cv
   \<and> fst (snd (snd demo_low)) = Some ?cv
   \<and> videos (snd (snd (snd demo_low))) ?cv \<noteq> None
   \<and> fst (snd (snd demo_run)) \<noteq> None
   \<and> fst demo_run = Some NoKeyframesFound
   \<and> reads (cap (fst (snd demo_run))) = reads (cap demo_self)
   \<and> dirs (snd (snd (snd demo_run))) ''out'' = dirs (snd (snd (snd demo_low))) ''out''
   \<and> \<not> opened (cap (fst (snd demo_run)))
   \<and> \<not> opened (cap (the (fst (snd (snd demo_run)))))
   \<and> ProcessingFailed \<in> set (messages (snd (snd (snd demo_run))))
   \<and> TempCleaned \<in> set (messages (snd (snd (snd demo_run))))
   \<and> dirs (snd (snd (snd demo_run))) ''out/temp'' = None
   \<and> videos (snd (snd (snd demo_run))) ?cv = None"
    using h1 h2 h3 h4 h5 h6 h7 a b c d e g1 g2 by blast

  note tk = pipeline_cleanup_and_reraise [OF p1 p2 p3 refl demo_low_def demo_try_def
              demo_run_keep_def]
  have k1: "dirs (snd (snd (snd (snd demo_try)))) ''out/temp/mini_frames'' = Some []"
    by code_simp
  have k2: "videos (snd (snd (snd (snd demo_try)))) ?cv \<noteq> None" by code_simp
  from tk h1 h2 have k0: "fst demo_run_keep = Some NoKeyframesFound" by blast
  from tk have kd: "dirs (snd (snd (snd demo_run_keep))) = dirs (snd (snd (snd (snd demo_try))))"
    and kv: "videos (snd (snd (snd demo_run_keep))) = videos (snd (snd (snd (snd demo_try))))"
    by blast+
  have keep: "fst demo_run_keep = Some NoKeyframesFound
   \<and> dirs (snd (snd (snd demo_run_keep))) ''out/temp/mini_frames'' = Some []
   \<and> videos (snd (snd (snd demo_run_keep))) ?cv \<noteq> None"
    using k0 k1 k2 unfolding kd kv by blast

  note ts = pipeline_cleanup_and_reraise [OF p1 p2 p3 refl refl demo_try_stuck_def
              demo_run_stuck_def]
  have s1: "\<not> remove_raises demo_env_stuck" by code_simp
  have s2: "3 \<le> rmtree_failures demo_env_stuck" by code_simp
  have s3: "fst (snd (snd (snd demo_try_stuck))) = Some ?cv" by code_simp
  have s4: "dirs (snd (snd (snd (snd demo_try_stuck)))) ''out/temp'' = Some []" by code_simp
  have s5: "fst demo_try_stuck = Some NoKeyframesFound" by code_simp
  from ts have "fst demo_run_stuck = fst demo_try_stuck" by blast
  with s5 have s6: "fst demo_run_stuck = Some NoKeyframesFound" by simp
  from ts s1 s3 have s7: "videos (snd (snd (snd demo_run_stuck))) ?cv = None" by blast
  from ts s2 have s8: "CleanupFailed \<in> set (messages (snd (snd (snd demo_run_stuck))))"
    and sd: "dirs (snd (snd (snd demo_run_stuck))) = dirs (snd (snd (snd (snd demo_try_stuck))))"
    by blast+
  have stuck: "\<not> remove_raises demo_env_stuck \<and> 3 \<le> rmtree_failures demo_env_stuck
   \<and> fst (snd (snd (snd demo_try_stuck))) = Some ?cv
   \<and> fst demo_run_stuck = Some NoKeyframesFound
   \<and> videos (snd (snd (snd demo_run_stuck))) ?cv = None
   \<and> dirs (snd (snd (snd demo_run_stuck))) ''out/temp'' = Some []
   \<and> CleanupFailed \<in> set (messages (snd (snd (snd demo_run_stuck))))"
    using s1 s2 s3 s4 s6 s7 s8 unfolding sd by blast

  note tl = pipeline_cleanup_and_reraise [OF p1 p2 p3 refl refl demo_try_locked_def
              demo_run_locked_def]
  have l1: "remove_raises demo_env_locked" by code_simp
  have l2: "3 \<le> rmtree_failures demo_env_locked" by code_simp
  have l3: "fst (snd (snd (snd demo_try_locked))) = Some ?cv" by code_simp
  have l4: "videos (snd (snd (snd (snd demo_try_locked)))) ?cv \<noteq> None" by code_simp
  from tl l1 l3 l4 have l5: "RemoveCompressedFailed \<in> set (messages (snd (snd (snd demo_run_locked))))"
    by blast
  from tl l1 l2 have l6: "CleanupFailed \<in> set (messages (snd (snd (snd demo_run_locked))))"
    and lv: "videos (snd (snd (snd demo_run_locked)))
               = videos (snd (snd (snd (snd demo_try_locked))))"
    by blast+
  have locked: "remove_raises demo_env_locked \<and> 3 \<le> rmtree_failures demo_env_locked
   \<and> videos (snd (snd (snd (snd demo_try_locked)))) ?cv \<noteq> None
   \<and> RemoveCompressedFailed \<in> set (messages (snd (snd (snd demo_run_locked))))
   \<and> CleanupFailed \<in> set (messages (snd (snd (snd demo_run_locked))))
   \<and> videos (snd (snd (snd demo_run_locked))) ?cv \<noteq> None"
    using l1 l2 l4 l5 l6 unfolding lv by blast
  from first keep stuck locked show ?thesis by blast
qed

end
